theory Spec2Isabelle
  imports Main
begin

section \<open>powerwalk: a concurrent file-tree walk\<close>

text \<open>
  The Go package \<open>powerwalk\<close> (file \<open>walker.go\<close>) has two entry points, \<open>Walk\<close> and
  \<open>WalkLimit\<close>. \<open>WalkLimit\<close> starts \<open>limit\<close> worker goroutines, one error-monitor
  goroutine and one discovery goroutine, which talk over three unbuffered channels
  (\<open>files\<close>, \<open>kill\<close>, \<open>errs\<close>), and waits for the discovery goroutine on a
  \<open>sync.WaitGroup\<close>.

  The embedding is an interleaving semantics. Every goroutine has a program counter, the
  shared variables and channels are fields of one state record, and a scheduler action
  names the goroutine that takes the next atomic step. A step is a function
  \<open>action \<Rightarrow> state \<Rightarrow> state option\<close>; \<open>None\<close> means that the action is not enabled
  (the goroutine is blocked, has returned, or the process has panicked).

  What the embedding takes for granted:
  \<^item> the scheduler is arbitrary: any enabled goroutine may take the next step, and none
    has to;
  \<^item> a step is one channel operation, one \<open>select\<close>, one read or write of \<open>walkErr\<close>,
    or one call of the visitor, and steps do not overlap;
  \<^item> the channels are unbuffered: a send on \<open>errs\<close> is a rendezvous with the receiving
    monitor, a send on \<open>files\<close> inside \<open>select\<close> with \<open>default\<close> succeeds only if a
    worker is parked in its \<open>select\<close>, a receive from a closed channel yields the zero
    value, and closing wakes every parked receiver;
  \<^item> the visitor returns, and what it returns depends on its arguments only.
\<close>

subsection \<open>Data\<close>

text \<open>
  Go \<open>error\<close> values. \<open>SkipDir\<close> is \<open>filepath.SkipDir\<close>; \<open>CannotContinue\<close> is the
  value built by \<open>errors.New("Error in walk. Cannot continue.")\<close> at line 80; \<open>Err\<close>
  stands for every other error value a visitor may return. \<open>nil\<close> is \<open>None\<close> of
  \<open>error option\<close>.
\<close>

datatype error = SkipDir | CannotContinue | Err string

record fileinfo =
  fi_name :: string
  fi_size :: int
  fi_is_dir :: bool

text \<open>\<open>type walkArgs struct { path string; info os.FileInfo; err error }\<close>\<close>

record walkArgs =
  path :: string
  info :: "fileinfo option"
  err :: "error option"

text \<open>\<open>filepath.WalkFunc\<close>: the visitor, seen through its input/output behaviour.\<close>

type_synonym WalkFunc = "string \<Rightarrow> fileinfo option \<Rightarrow> error option \<Rightarrow> error option"

text \<open>
  \<open>filepath.Walk\<close> belongs to the Go standard library. It is represented by the file
  system it reads: for a root, the sequence of \<open>(path, info, err)\<close> triples it hands to
  a callback that keeps returning \<open>nil\<close>, in its lexical depth-first order. It stops at
  the first callback that returns an error other than \<open>SkipDir\<close> and returns that error.
  The callback of \<open>WalkLimit\<close> returns \<open>nil\<close> or \<open>CannotContinue\<close> only.
\<close>

type_synonym filesystem = "string \<Rightarrow> walkArgs list"

definition DefaultConcurrentWalks :: int where
  "DefaultConcurrentWalks = 50"

text \<open>The arguments of one call of \<open>WalkLimit\<close>, with the file system it runs on.\<close>

record params =
  fs :: filesystem
  root :: string
  walkFn :: WalkFunc
  limit :: int

definition visit :: "params \<Rightarrow> walkArgs \<Rightarrow> error option" where
  "visit p file = walkFn p (path file) (info file) (err file)"

definition entries :: "params \<Rightarrow> walkArgs list" where
  "entries p = fs p (root p)"

subsection \<open>Goroutines and shared state\<close>

datatype chan = Files | Kill | Errs

datatype panic =
    LimitPanic
  | CloseOfClosed chan
  | SendOnClosed chan
  | NilDeref
  | NegativeWaitGroup

text \<open>The calling goroutine, lines 34 to 99.\<close>

datatype main_pc =
    Main_entry
  | Main_spawn int
  | Main_go_monitor
  | Main_go_discover
  | Main_wait
  | Main_check
  | Main_close
  | Main_return
  | Main_done

text \<open>
  A worker, lines 46 to 57. \<open>WSelect\<close>: about to run the \<open>select\<close>; \<open>WParked\<close>: blocked
  in it, queued on \<open>files\<close> and \<open>kill\<close>; \<open>WGot file\<close>: has received the pointer
  \<open>file\<close> (\<open>None\<close> is the nil pointer a closed channel yields) and is evaluating
  \<open>walkFn(file.path, file.info, file.err)\<close>; \<open>WSendErr e\<close>: at \<open>errs <- e\<close>;
  \<open>WExit\<close>: returned.
\<close>

datatype worker_pc =
    WSelect
  | WParked
  | WGot "walkArgs option"
  | WSendErr error
  | WExit

text \<open>
  The error monitor, lines 63 to 70. \<open>case walkErr = <-errs\<close> is a communication
  followed by an assignment. \<open>EStore e\<close>: has received \<open>e\<close> from \<open>errs\<close>, which has
  released the sending worker, and is about to store it in \<open>walkErr\<close>; \<open>EGot\<close>: has
  stored and is about to run \<open>close(kill)\<close>.
\<close>

datatype monitor_pc = ENone | ESelect | EParked | EStore error | EGot | EExit

text \<open>
  The discovery goroutine, lines 74 to 91. \<open>DWalk xs\<close>: \<open>filepath.Walk\<close> is about to
  call the callback on the head of \<open>xs\<close>, or to return \<open>nil\<close> when \<open>xs\<close> is empty;
  \<open>DSend x xs\<close>: the callback is at its inner \<open>select\<close> (line 82) for entry \<open>x\<close>;
  \<open>DReturned r\<close>: \<open>filepath.Walk\<close> has returned \<open>r\<close>, \<open>wg.Done()\<close> is next;
  \<open>DDone\<close>: returned.
\<close>

datatype disc_pc =
    DNone
  | DWalk "walkArgs list"
  | DSend walkArgs "walkArgs list"
  | DReturned "error option"
  | DDone

text \<open>
  \<open>calls\<close> is a history variable: the arguments of the visitor invocations made so far.
  \<open>result\<close> is \<open>None\<close> until \<open>WalkLimit\<close> returns, then \<open>Some\<close> of the returned error.
\<close>

record state =
  main :: main_pc
  workers :: "worker_pc list"
  mon :: monitor_pc
  disc :: disc_pc
  chans_made :: bool
  files_closed :: bool
  kill_closed :: bool
  walkErr :: "error option"
  wg :: int
  result :: "error option option"
  panicked :: "panic option"
  calls :: "walkArgs list"

definition init :: state where
  "init = \<lparr> main = Main_entry, workers = [], mon = ENone, disc = DNone,
            chans_made = False, files_closed = False, kill_closed = False,
            walkErr = None, wg = 0, result = None, panicked = None, calls = [] \<rparr>"

subsection \<open>Channel operations\<close>

text \<open>
  Closing a closed channel panics. Closing an open one wakes every goroutine parked on
  it: a worker parked in its \<open>select\<close> leaves through \<open>case <-kill\<close> when \<open>kill\<close>
  is closed, and receives the nil pointer when \<open>files\<close> is closed.
\<close>

definition wake_kill :: "worker_pc \<Rightarrow> worker_pc" where
  "wake_kill w = (if w = WParked then WExit else w)"

definition wake_files :: "worker_pc \<Rightarrow> worker_pc" where
  "wake_files w = (if w = WParked then WGot None else w)"

definition close_kill :: "state \<Rightarrow> panic + state" where
  "close_kill s =
     (if kill_closed s then Inl (CloseOfClosed Kill)
      else Inr (s\<lparr>kill_closed := True,
                  workers := map wake_kill (workers s),
                  mon := (if mon s = EParked then EExit else mon s)\<rparr>))"

definition close_files :: "state \<Rightarrow> panic + state" where
  "close_files s =
     (if files_closed s then Inl (CloseOfClosed Files)
      else Inr (s\<lparr>files_closed := True, workers := map wake_files (workers s)\<rparr>))"

definition set_worker :: "nat \<Rightarrow> worker_pc \<Rightarrow> state \<Rightarrow> state" where
  "set_worker i w s = s\<lparr>workers := (workers s)[i := w]\<rparr>"

subsection \<open>Steps of the goroutines\<close>

definition main_step :: "params \<Rightarrow> state \<Rightarrow> state option" where
  "main_step p s =
     (case main s of
        Main_entry \<Rightarrow>
          if limit p < 1 then Some (s\<lparr>panicked := Some LimitPanic\<rparr>)
          else Some (s\<lparr>chans_made := True, main := Main_spawn 0\<rparr>)
      | Main_spawn i \<Rightarrow>
          if i < limit p
          then Some (s\<lparr>workers := workers s @ [WSelect], main := Main_spawn (i + 1)\<rparr>)
          else Some (s\<lparr>main := Main_go_monitor\<rparr>)
      | Main_go_monitor \<Rightarrow> Some (s\<lparr>mon := ESelect, main := Main_go_discover\<rparr>)
      | Main_go_discover \<Rightarrow>
          Some (s\<lparr>wg := wg s + 1, disc := DWalk (entries p), main := Main_wait\<rparr>)
      | Main_wait \<Rightarrow> if wg s = 0 then Some (s\<lparr>main := Main_check\<rparr>) else None
      | Main_check \<Rightarrow>
          Some (s\<lparr>main := (if walkErr s = None then Main_close else Main_return)\<rparr>)
      | Main_close \<Rightarrow>
          (case close_kill s of
             Inl e \<Rightarrow> Some (s\<lparr>panicked := Some e\<rparr>)
           | Inr s' \<Rightarrow> Some (s'\<lparr>main := Main_return\<rparr>))
      | Main_return \<Rightarrow> Some (s\<lparr>result := Some (walkErr s), main := Main_done\<rparr>)
      | Main_done \<Rightarrow> None)"

text \<open>
  A worker at its \<open>select\<close> takes \<open>case <-kill\<close> when \<open>kill\<close> is closed, receives from
  \<open>files\<close> when only \<open>files\<close> is closed, and parks otherwise (the discovery goroutine
  never waits on \<open>files\<close>). When both channels are closed Go picks either case:
  \<open>worker_step\<close> takes \<open>kill\<close>, \<open>worker_nil_step\<close> takes \<open>files\<close>.
\<close>

definition worker_step :: "params \<Rightarrow> nat \<Rightarrow> state \<Rightarrow> state option" where
  "worker_step p i s =
     (if i < length (workers s) then
        (case workers s ! i of
           WSelect \<Rightarrow>
             if kill_closed s then Some (set_worker i WExit s)
             else if files_closed s then Some (set_worker i (WGot None) s)
             else Some (set_worker i WParked s)
         | WParked \<Rightarrow> None
         | WGot None \<Rightarrow> Some (s\<lparr>panicked := Some NilDeref\<rparr>)
         | WGot (Some file) \<Rightarrow>
             (case visit p file of
                None \<Rightarrow> Some ((set_worker i WSelect s)\<lparr>calls := calls s @ [file]\<rparr>)
              | Some e \<Rightarrow> Some ((set_worker i (WSendErr e) s)\<lparr>calls := calls s @ [file]\<rparr>))
         | WSendErr e \<Rightarrow> None
         | WExit \<Rightarrow> None)
      else None)"

definition worker_nil_step :: "nat \<Rightarrow> state \<Rightarrow> state option" where
  "worker_nil_step i s =
     (if i < length (workers s) \<and> workers s ! i = WSelect \<and> files_closed s
      then Some (set_worker i (WGot None) s) else None)"

text \<open>
  The monitor at its \<open>select\<close> takes \<open>case <-kill\<close> when \<open>kill\<close> is closed and parks
  otherwise; \<open>monitor_recv i\<close> is the rendezvous on \<open>errs\<close> with worker \<open>i\<close>: the worker
  goes on and the monitor holds the error. Its next step stores the error in
  \<open>walkErr\<close>, the one after closes \<open>kill\<close>.
\<close>

definition monitor_step :: "state \<Rightarrow> state option" where
  "monitor_step s =
     (case mon s of
        ENone \<Rightarrow> None
      | ESelect \<Rightarrow> if kill_closed s then Some (s\<lparr>mon := EExit\<rparr>) else Some (s\<lparr>mon := EParked\<rparr>)
      | EParked \<Rightarrow> None
      | EStore e \<Rightarrow> Some (s\<lparr>walkErr := Some e, mon := EGot\<rparr>)
      | EGot \<Rightarrow>
          (case close_kill s of
             Inl e \<Rightarrow> Some (s\<lparr>panicked := Some e\<rparr>)
           | Inr s' \<Rightarrow> Some (s'\<lparr>mon := EExit\<rparr>))
      | EExit \<Rightarrow> None)"

definition monitor_recv :: "nat \<Rightarrow> state \<Rightarrow> state option" where
  "monitor_recv i s =
     (if i < length (workers s) \<and> (mon s = ESelect \<or> mon s = EParked) then
        (case workers s ! i of
           WSendErr e \<Rightarrow> Some ((set_worker i WSelect s)\<lparr>mon := EStore e\<rparr>)
         | _ \<Rightarrow> None)
      else None)"

text \<open>
  The callback (lines 76 to 88). Outer \<open>select\<close>: with \<open>kill\<close> closed it closes \<open>files\<close>
  and returns \<open>CannotContinue\<close>, which makes \<open>filepath.Walk\<close> return that error at once.
  Otherwise the inner \<open>select\<close> sends to a parked worker if there is one (\<open>deliver\<close>)
  and takes \<open>default\<close> if there is none; a send on a closed channel panics. Go hands
  the value to the worker that has been parked longest; \<open>deliver i\<close> allows any parked
  worker \<open>i\<close>, the order of parking not being part of the state.
\<close>

definition discover_step :: "params \<Rightarrow> state \<Rightarrow> state option" where
  "discover_step p s =
     (case disc s of
        DNone \<Rightarrow> None
      | DWalk [] \<Rightarrow> Some (s\<lparr>disc := DReturned None\<rparr>)
      | DWalk (x # xs) \<Rightarrow>
          if kill_closed s then
            (case close_files s of
               Inl e \<Rightarrow> Some (s\<lparr>panicked := Some e\<rparr>)
             | Inr s' \<Rightarrow> Some (s'\<lparr>disc := DReturned (Some CannotContinue)\<rparr>))
          else Some (s\<lparr>disc := DSend x xs\<rparr>)
      | DSend x xs \<Rightarrow>
          if files_closed s then Some (s\<lparr>panicked := Some (SendOnClosed Files)\<rparr>)
          else if WParked \<in> set (workers s) then None
          else Some (s\<lparr>disc := DWalk xs\<rparr>)
      | DReturned r \<Rightarrow>
          if wg s - 1 < 0 then Some (s\<lparr>panicked := Some NegativeWaitGroup\<rparr>)
          else Some (s\<lparr>wg := wg s - 1, disc := DDone\<rparr>)
      | DDone \<Rightarrow> None)"

definition deliver :: "nat \<Rightarrow> state \<Rightarrow> state option" where
  "deliver i s =
     (case disc s of
        DSend x xs \<Rightarrow>
          if \<not> files_closed s \<and> i < length (workers s) \<and> workers s ! i = WParked
          then Some ((set_worker i (WGot (Some x)) s)\<lparr>disc := DWalk xs\<rparr>)
          else None
      | _ \<Rightarrow> None)"

subsection \<open>Scheduling\<close>

datatype action =
    Act_main
  | Act_worker nat
  | Act_worker_nil nat
  | Act_monitor
  | Act_monitor_recv nat
  | Act_discover
  | Act_deliver nat

text \<open>A panic in any goroutine ends the process: no action is enabled afterwards.\<close>

definition exec :: "params \<Rightarrow> action \<Rightarrow> state \<Rightarrow> state option" where
  "exec p a s =
     (if panicked s \<noteq> None then None
      else (case a of
              Act_main \<Rightarrow> main_step p s
            | Act_worker i \<Rightarrow> worker_step p i s
            | Act_worker_nil i \<Rightarrow> worker_nil_step i s
            | Act_monitor \<Rightarrow> monitor_step s
            | Act_monitor_recv i \<Rightarrow> monitor_recv i s
            | Act_discover \<Rightarrow> discover_step p s
            | Act_deliver i \<Rightarrow> deliver i s))"

fun run :: "params \<Rightarrow> action list \<Rightarrow> state \<Rightarrow> state option" where
  "run p [] s = Some s"
| "run p (a # as) s = (case exec p a s of None \<Rightarrow> None | Some s' \<Rightarrow> run p as s')"

text \<open>
  \<open>WalkLimit\<close> and \<open>Walk\<close> under a schedule: the state the call has reached after the
  schedule's actions, if every one of them was enabled.
\<close>

definition WalkLimit :: "filesystem \<Rightarrow> string \<Rightarrow> WalkFunc \<Rightarrow> int \<Rightarrow> action list \<Rightarrow> state option" where
  "WalkLimit f r fn lim sched = run \<lparr>fs = f, root = r, walkFn = fn, limit = lim\<rparr> sched init"

definition Walk :: "filesystem \<Rightarrow> string \<Rightarrow> WalkFunc \<Rightarrow> action list \<Rightarrow> state option" where
  "Walk f r fn sched = WalkLimit f r fn DefaultConcurrentWalks sched"

text \<open>The number of visitor invocations in flight.\<close>

fun calling :: "worker_pc \<Rightarrow> bool" where
  "calling (WGot (Some file)) = True"
| "calling _ = False"

definition in_flight :: "state \<Rightarrow> nat" where
  "in_flight s = length (filter calling (workers s))"

subsection \<open>Invariants: definitions\<close>

text \<open>
  Auxiliary views of the program counters: whether \<open>main\<close> has passed the \<open>go\<close>
  statement of the discovery goroutine or of the monitor, how many workers it has
  started, which entries \<open>filepath.Walk\<close> has still to present, whether the
  discovery goroutine has been started and has not yet called \<open>wg.Done()\<close>, whether
  \<open>main\<close> is past \<open>wg.Wait()\<close>, and whether the discovery goroutine is past
  \<open>filepath.Walk\<close>.
\<close>

fun discover_started :: "main_pc \<Rightarrow> bool" where
  "discover_started Main_entry = False"
| "discover_started (Main_spawn i) = False"
| "discover_started Main_go_monitor = False"
| "discover_started Main_go_discover = False"
| "discover_started _ = True"

fun monitor_started :: "main_pc \<Rightarrow> bool" where
  "monitor_started Main_entry = False"
| "monitor_started (Main_spawn i) = False"
| "monitor_started Main_go_monitor = False"
| "monitor_started _ = True"

fun spawned :: "params \<Rightarrow> main_pc \<Rightarrow> int" where
  "spawned p Main_entry = 0"
| "spawned p (Main_spawn i) = i"
| "spawned p _ = limit p"

fun pending :: "disc_pc \<Rightarrow> walkArgs list" where
  "pending (DWalk xs) = xs"
| "pending (DSend x xs) = x # xs"
| "pending _ = []"

fun walking :: "disc_pc \<Rightarrow> bool" where
  "walking (DWalk xs) = True"
| "walking (DSend x xs) = True"
| "walking (DReturned r) = True"
| "walking _ = False"

fun after_wait :: "main_pc \<Rightarrow> bool" where
  "after_wait Main_check = True"
| "after_wait Main_close = True"
| "after_wait Main_return = True"
| "after_wait Main_done = True"
| "after_wait _ = False"

fun stopped :: "disc_pc \<Rightarrow> bool" where
  "stopped (DReturned r) = True"
| "stopped DDone = True"
| "stopped _ = False"

text \<open>
  The invariants. \<open>inv_boot\<close>: a goroutine that \<open>main\<close> has not started yet has not
  moved. \<open>inv_pool\<close>: \<open>main\<close> has started as many workers as its loop counter says, and
  never more than \<open>limit\<close>. \<open>inv_wg\<close>: the wait group counts the discovery goroutine.
  \<open>inv_files\<close>: \<open>files\<close> is closed only after \<open>kill\<close>, by a discovery goroutine that
  has left \<open>filepath.Walk\<close> with \<open>CannotContinue\<close>. \<open>inv_parked\<close>: nobody is parked
  on a closed \<open>kill\<close>. \<open>inv_once\<close>: \<open>walkErr\<close> is set exactly when the monitor is past
  its store, and a returned error is the content of \<open>walkErr\<close>. \<open>inv_prov\<close>: an error in
  \<open>walkErr\<close>, held by the monitor or on its way to \<open>errs\<close> was returned by a visitor
  invocation.
  \<open>inv_entries\<close>: whatever is visited, held by a worker or still to be presented is an
  entry of the tree. \<open>inv_panic\<close>: three panics never happen. \<open>inv_waited\<close>: past
  \<open>wg.Wait()\<close> the discovery goroutine has returned. \<open>inv_result\<close>: \<open>main\<close> has
  returned exactly when there is a result.
\<close>

definition inv_boot :: "state \<Rightarrow> bool" where
  "inv_boot s \<longleftrightarrow>
     (\<not> discover_started (main s) \<longrightarrow> disc s = DNone) \<and>
     (discover_started (main s) \<longrightarrow> disc s \<noteq> DNone) \<and>
     (\<not> monitor_started (main s) \<longrightarrow> mon s = ENone)"

definition inv_pool :: "params \<Rightarrow> state \<Rightarrow> bool" where
  "inv_pool p s \<longleftrightarrow>
     int (length (workers s)) = spawned p (main s) \<and>
     (main s = Main_entry \<or> 1 \<le> limit p \<and> spawned p (main s) \<le> limit p)"

definition inv_wg :: "state \<Rightarrow> bool" where
  "inv_wg s \<longleftrightarrow> wg s = (if walking (disc s) then 1 else 0)"

definition inv_files :: "state \<Rightarrow> bool" where
  "inv_files s \<longleftrightarrow>
     (files_closed s \<longrightarrow>
        kill_closed s \<and> (disc s = DReturned (Some CannotContinue) \<or> disc s = DDone))"

definition inv_parked :: "state \<Rightarrow> bool" where
  "inv_parked s \<longleftrightarrow> (kill_closed s \<longrightarrow> WParked \<notin> set (workers s) \<and> mon s \<noteq> EParked)"

definition inv_once :: "state \<Rightarrow> bool" where
  "inv_once s \<longleftrightarrow>
     (walkErr s \<noteq> None \<longrightarrow> mon s = EGot \<or> mon s = EExit) \<and>
     (mon s = EGot \<longrightarrow> walkErr s \<noteq> None) \<and>
     (\<forall>e. result s = Some (Some e) \<longrightarrow> walkErr s = Some e)"

definition inv_prov :: "params \<Rightarrow> state \<Rightarrow> bool" where
  "inv_prov p s \<longleftrightarrow>
     (\<forall>e. walkErr s = Some e \<longrightarrow> (\<exists>a\<in>set (calls s). visit p a = Some e)) \<and>
     (\<forall>e. mon s = EStore e \<longrightarrow> (\<exists>a\<in>set (calls s). visit p a = Some e)) \<and>
     (\<forall>e. WSendErr e \<in> set (workers s) \<longrightarrow> (\<exists>a\<in>set (calls s). visit p a = Some e))"

definition inv_entries :: "params \<Rightarrow> state \<Rightarrow> bool" where
  "inv_entries p s \<longleftrightarrow>
     set (calls s) \<subseteq> set (entries p) \<and>
     (\<forall>a. WGot (Some a) \<in> set (workers s) \<longrightarrow> a \<in> set (entries p)) \<and>
     set (pending (disc s)) \<subseteq> set (entries p)"

definition inv_panic :: "state \<Rightarrow> bool" where
  "inv_panic s \<longleftrightarrow>
     panicked s \<noteq> Some (CloseOfClosed Files) \<and> panicked s \<noteq> Some (SendOnClosed Files) \<and>
     panicked s \<noteq> Some NegativeWaitGroup"

definition inv_waited :: "state \<Rightarrow> bool" where
  "inv_waited s \<longleftrightarrow> (after_wait (main s) \<longrightarrow> disc s = DDone)"

definition inv_result :: "state \<Rightarrow> bool" where
  "inv_result s \<longleftrightarrow> (main s = Main_done) = (result s \<noteq> None)"

definition walk_inv :: "params \<Rightarrow> state \<Rightarrow> bool" where
  "walk_inv p s \<longleftrightarrow> inv_boot s \<and> inv_pool p s \<and> inv_wg s \<and> inv_files s \<and> inv_parked s \<and>
     inv_once s \<and> inv_prov p s \<and> inv_entries p s \<and> inv_panic s \<and> inv_waited s \<and>
     inv_result s"

text \<open>
  A variant for the calling goroutine and the discovery goroutine it waits for: the
  number of steps each of them has still to take at most, and their sum. \<open>caller_side\<close>
  are the actions of these two goroutines.
\<close>

fun main_todo :: "params \<Rightarrow> main_pc \<Rightarrow> nat" where
  "main_todo p Main_entry = nat (limit p) + 8"
| "main_todo p (Main_spawn i) = nat (limit p - i) + 7"
| "main_todo p Main_go_monitor = 6"
| "main_todo p Main_go_discover = 5"
| "main_todo p Main_wait = 4"
| "main_todo p Main_check = 3"
| "main_todo p Main_close = 2"
| "main_todo p Main_return = 1"
| "main_todo p Main_done = 0"

fun disc_todo :: "params \<Rightarrow> disc_pc \<Rightarrow> nat" where
  "disc_todo p DNone = 2 * length (entries p) + 2"
| "disc_todo p (DWalk xs) = 2 * length xs + 2"
| "disc_todo p (DSend x xs) = 2 * length xs + 3"
| "disc_todo p (DReturned r) = 1"
| "disc_todo p DDone = 0"

definition todo :: "params \<Rightarrow> state \<Rightarrow> nat" where
  "todo p s = main_todo p (main s) + disc_todo p (disc s)"

fun caller_side :: "action \<Rightarrow> bool" where
  "caller_side Act_main = True"
| "caller_side Act_discover = True"
| "caller_side (Act_deliver i) = True"
| "caller_side _ = False"

subsection \<open>Example calls\<close>

text \<open>
  A small tree, a directory with two files, and visitors that fail on one path or on
  none. They are the concrete inputs at which the theorems below are instantiated.
\<close>

definition dir_entry :: "string \<Rightarrow> walkArgs" where
  "dir_entry n = \<lparr>path = n, info = Some \<lparr>fi_name = n, fi_size = 4096, fi_is_dir = True\<rparr>, err = None\<rparr>"

definition file_entry :: "string \<Rightarrow> walkArgs" where
  "file_entry n = \<lparr>path = n, info = Some \<lparr>fi_name = n, fi_size = 1, fi_is_dir = False\<rparr>, err = None\<rparr>"

definition fail_on :: "string \<Rightarrow> error \<Rightarrow> WalkFunc" where
  "fail_on n e = (\<lambda>p i d. if p = n then Some e else None)"

definition never_fail :: WalkFunc where
  "never_fail = (\<lambda>p i d. None)"

definition ex_fs :: filesystem where
  "ex_fs r = [dir_entry r, file_entry (r @ ''/a.txt''), file_entry (r @ ''/b.txt'')]"

definition ex_call :: "WalkFunc \<Rightarrow> int \<Rightarrow> params" where
  "ex_call fn lim = \<lparr>fs = ex_fs, root = ''d'', walkFn = fn, limit = lim\<rparr>"

text \<open>
  Schedules. A call with limit \<open>n\<close> needs \<open>n + 4\<close> steps of \<open>main\<close> to reach
  \<open>wg.Wait()\<close>: the check of the limit with the three \<open>make\<close>, \<open>n\<close> turns of the loop,
  its exit, and the two \<open>go\<close> statements.

  \<open>quiet_run\<close> (limit 1): the workers and the monitor are not scheduled, so all three
  entries are skipped; \<open>filepath.Walk\<close> returns, \<open>wg.Done()\<close>, and \<open>main\<close> passes
  \<open>wg.Wait()\<close> and finds \<open>walkErr == nil\<close>. \<open>quiet_done\<close> goes on: \<open>main\<close> closes
  \<open>kill\<close> and returns, the worker and the monitor leave through \<open>case <-kill\<close>.
\<close>

definition quiet_run :: "action list" where
  "quiet_run =
     [Act_main, Act_main, Act_main, Act_main, Act_main,
      Act_discover, Act_discover, Act_discover, Act_discover, Act_discover, Act_discover,
      Act_discover, Act_discover, Act_main, Act_main]"

definition quiet_done :: "action list" where
  "quiet_done = quiet_run @ [Act_main, Act_main, Act_worker 0, Act_monitor]"

text \<open>
  \<open>cancel_run\<close> (limit 2): both workers and the monitor park; the directory goes to
  worker 0 and \<open>a.txt\<close> to worker 1, whose visitor call returns an error; the monitor
  receives it, stores it and closes \<open>kill\<close> while \<open>filepath.Walk\<close> is about to present
  \<open>b.txt\<close>. \<open>cancel_stored\<close> is \<open>cancel_run\<close> without its last step, the
  \<open>close(kill)\<close>. \<open>cancel_done\<close> goes on after \<open>cancel_run\<close>: the callback closes
  \<open>files\<close> and stops the walk, \<open>wg.Done()\<close>, and \<open>main\<close> returns \<open>walkErr\<close>.
  \<open>crash_before_return\<close> goes on after \<open>cancel_run\<close> in another way: the callback
  closes \<open>files\<close>, worker 0 finishes its call and comes back to a \<open>select\<close> where
  \<open>files\<close> and \<open>kill\<close> are both closed, receives the nil pointer from \<open>files\<close> and
  dereferences it, while \<open>main\<close> is still in \<open>wg.Wait()\<close>.
\<close>

definition cancel_run :: "action list" where
  "cancel_run =
     [Act_main, Act_main, Act_main, Act_main, Act_main, Act_main, Act_worker 0, Act_worker 1,
      Act_monitor, Act_discover, Act_deliver 0, Act_discover, Act_deliver 1, Act_worker 1,
      Act_monitor_recv 1, Act_monitor, Act_monitor]"

definition cancel_stored :: "action list" where
  "cancel_stored =
     [Act_main, Act_main, Act_main, Act_main, Act_main, Act_main, Act_worker 0, Act_worker 1,
      Act_monitor, Act_discover, Act_deliver 0, Act_discover, Act_deliver 1, Act_worker 1,
      Act_monitor_recv 1, Act_monitor]"

definition cancel_done :: "action list" where
  "cancel_done = cancel_run @ [Act_discover, Act_discover, Act_main, Act_main, Act_main]"


text \<open>
  \<open>offer_parked\<close> (limit 2) and \<open>offer_busy\<close> (limit 1) stop at the delivery attempt for
  the first entry, with both workers parked and with the only worker not yet in its
  \<open>select\<close>.
\<close>

definition offer_parked :: "action list" where
  "offer_parked =
     [Act_main, Act_main, Act_main, Act_main, Act_main, Act_main, Act_worker 0, Act_worker 1,
      Act_monitor, Act_discover]"

definition offer_busy :: "action list" where
  "offer_busy = [Act_main, Act_main, Act_main, Act_main, Act_main, Act_discover]"


text \<open>
  \<open>serial_fail\<close> (limit 1): the worker takes the directory, then \<open>a.txt\<close>; the monitor
  receives the error of the second call, stores it and closes \<open>kill\<close>; the callback stops the walk
  at \<open>b.txt\<close> and \<open>main\<close> returns the error.
\<close>

definition serial_fail :: "action list" where
  "serial_fail =
     [Act_main, Act_main, Act_main, Act_main, Act_main, Act_worker 0, Act_discover,
      Act_deliver 0, Act_worker 0, Act_worker 0, Act_discover, Act_deliver 0, Act_worker 0,
      Act_monitor_recv 0, Act_monitor, Act_monitor, Act_discover, Act_discover, Act_main,
      Act_main, Act_main]"

text \<open>
  \<open>skipdir_run\<close> (limit 2): both workers park, the directory goes to worker 0 and
  \<open>a.txt\<close> to worker 1. After the step of worker 0, \<open>skipdir_rest\<close> lets worker 1
  finish its call, the monitor receive from worker 0, store and close \<open>kill\<close>, the walk stop
  and \<open>main\<close> return.
\<close>

definition skipdir_run :: "action list" where
  "skipdir_run =
     [Act_main, Act_main, Act_main, Act_main, Act_main, Act_main, Act_worker 0, Act_worker 1,
      Act_discover, Act_deliver 0, Act_discover, Act_deliver 1]"

definition skipdir_rest :: "action list" where
  "skipdir_rest =
     [Act_worker 1, Act_monitor_recv 0, Act_monitor, Act_monitor, Act_discover, Act_discover,
      Act_main, Act_main, Act_main]"

text \<open>
  \<open>skipdir_lost\<close> (limit 1): the worker parks, receives the directory, and its visitor
  call returns; the two files are skipped, the worker not being parked;
  \<open>filepath.Walk\<close> returns, \<open>wg.Done()\<close>, and \<open>main\<close> runs to its \<open>return\<close> before the
  monitor is scheduled.
\<close>

definition skipdir_lost :: "action list" where
  "skipdir_lost =
     [Act_main, Act_main, Act_main, Act_main, Act_main, Act_worker 0, Act_discover,
      Act_deliver 0, Act_worker 0, Act_discover, Act_discover, Act_discover, Act_discover,
      Act_discover, Act_discover, Act_main, Act_main, Act_main, Act_main]"

text \<open>
  \<open>skipdir_crash\<close> (limit 1) is \<open>skipdir_lost\<close> up to the test of line 95, which reads
  \<open>nil\<close>; then the monitor receives \<open>SkipDir\<close>, stores it and closes \<open>kill\<close>, and
  \<open>main\<close> closes \<open>kill\<close> again.
\<close>

definition skipdir_crash :: "action list" where
  "skipdir_crash =
     [Act_main, Act_main, Act_main, Act_main, Act_main, Act_worker 0, Act_discover,
      Act_deliver 0, Act_worker 0, Act_discover, Act_discover, Act_discover, Act_discover,
      Act_discover, Act_discover, Act_main, Act_main, Act_monitor_recv 0, Act_monitor,
      Act_monitor, Act_main]"

text \<open>
  \<open>close_twice\<close> (limit 1) is \<open>early_return\<close> up to the check of \<open>walkErr\<close> at line 95;
  then the monitor receives the error, stores it and closes \<open>kill\<close>, and \<open>main\<close>
  closes it again.
  \<open>nil_file\<close> (limit 2) continues \<open>cancel_done\<close>: worker 0 finishes its call and
  comes back to a \<open>select\<close> where \<open>files\<close> and \<open>kill\<close> are both closed; it receives
  from \<open>files\<close>.
\<close>

definition close_twice :: "action list" where
  "close_twice =
     [Act_main, Act_main, Act_main, Act_main, Act_main,
      Act_discover, Act_discover, Act_discover, Act_discover, Act_worker 0, Act_discover,
      Act_deliver 0, Act_worker 0, Act_discover, Act_discover,
      Act_main, Act_main, Act_monitor_recv 0, Act_monitor, Act_monitor, Act_main]"

definition nil_file :: "action list" where
  "nil_file = cancel_done @ [Act_worker 0, Act_worker_nil 0, Act_worker 0]"

subsection \<open>Possible outcomes and generic schedules\<close>

text \<open>
  \<open>may_return p r\<close>: some schedule makes the call return \<open>r\<close>. The schedules \<open>boot\<close>
  and \<open>skips\<close> start the goroutines of a call and let the discovery goroutine pass over
  entries while no worker is parked; \<open>booted\<close> is the state after \<open>boot\<close>.
\<close>

definition may_return :: "params \<Rightarrow> error option \<Rightarrow> bool" where
  "may_return p r \<longleftrightarrow> (\<exists>sched s. run p sched init = Some s \<and> result s = Some r)"

fun skips :: "walkArgs list \<Rightarrow> action list" where
  "skips [] = []"
| "skips (x # xs) = Act_discover # Act_discover # skips xs"

definition boot :: "nat \<Rightarrow> action list" where
  "boot m = Act_main # Act_main # replicate m Act_main @ [Act_main, Act_main, Act_main]"

definition booted :: "params \<Rightarrow> nat \<Rightarrow> state" where
  "booted p m = init\<lparr>main := Main_wait, workers := WSelect # replicate m WSelect, mon := ESelect,
     disc := DWalk (entries p), chans_made := True, wg := 1\<rparr>"

section \<open>Invariants of the reachable states\<close>

subsection \<open>Lists of workers\<close>

lemmas inv_defs = walk_inv_def inv_boot_def inv_pool_def inv_wg_def inv_files_def inv_parked_def
  inv_once_def inv_prov_def inv_entries_def inv_panic_def inv_waited_def inv_result_def

lemma in_set_updE: "x \<in> set (xs[i := w]) \<Longrightarrow> (x = w \<Longrightarrow> P) \<Longrightarrow> (x \<in> set xs \<Longrightarrow> P) \<Longrightarrow> P"
  using set_update_subset_insert by fastforce

lemma wake_kill_image [simp]:
  "WParked \<notin> wake_kill ` S"
  "WSendErr e \<in> wake_kill ` S \<longleftrightarrow> WSendErr e \<in> S"
  "WGot file \<in> wake_kill ` S \<longleftrightarrow> WGot file \<in> S"
  by (auto simp: wake_kill_def image_iff)

lemma wake_files_image [simp]:
  "WParked \<notin> wake_files ` S"
  "WSendErr e \<in> wake_files ` S \<longleftrightarrow> WSendErr e \<in> S"
  "WGot (Some a) \<in> wake_files ` S \<longleftrightarrow> WGot (Some a) \<in> S"
  by (auto simp: wake_files_def image_iff)

lemma nth_eq_mem: "i < length xs \<Longrightarrow> xs ! i = w \<Longrightarrow> w \<in> set xs"
  by auto

lemma wake_files_id: "WParked \<notin> set ws \<Longrightarrow> map wake_files ws = ws"
  by (induction ws) (auto simp: wake_files_def)

subsection \<open>What a worker's step leaves alone\<close>

lemma worker_step_frame:
  "worker_step p i s = Some s' \<Longrightarrow>
     main s' = main s \<and> mon s' = mon s \<and> disc s' = disc s \<and> walkErr s' = walkErr s \<and>
     result s' = result s \<and> wg s' = wg s \<and> kill_closed s' = kill_closed s \<and>
     files_closed s' = files_closed s"
  by (auto simp: worker_step_def set_worker_def split: if_splits worker_pc.splits option.splits)

lemma worker_nil_step_frame:
  "worker_nil_step i s = Some s' \<Longrightarrow>
     main s' = main s \<and> mon s' = mon s \<and> disc s' = disc s \<and> walkErr s' = walkErr s \<and>
     result s' = result s \<and> wg s' = wg s \<and> kill_closed s' = kill_closed s \<and>
     files_closed s' = files_closed s"
  by (auto simp: worker_nil_step_def set_worker_def split: if_splits)

subsection \<open>Preservation, one invariant at a time\<close>

subsubsection \<open>The goroutines start in program order\<close>

lemma main_boot:
  "inv_boot s \<Longrightarrow> main_step p s = Some s' \<Longrightarrow> inv_boot s'"
  by (cases "main s") (auto simp: main_step_def close_kill_def inv_boot_def split: if_splits)

lemma worker_boot:
  "inv_boot s \<Longrightarrow> worker_step p i s = Some s' \<Longrightarrow> inv_boot s'"
  by (drule worker_step_frame) (simp add: inv_boot_def)

lemma worker_nil_boot:
  "inv_boot s \<Longrightarrow> worker_nil_step i s = Some s' \<Longrightarrow> inv_boot s'"
  by (drule worker_nil_step_frame) (simp add: inv_boot_def)

lemma monitor_boot:
  "inv_boot s \<Longrightarrow> monitor_step s = Some s' \<Longrightarrow> inv_boot s'"
  by (cases "mon s") (auto simp: monitor_step_def close_kill_def inv_boot_def split: if_splits)

lemma monitor_recv_boot:
  "inv_boot s \<Longrightarrow> monitor_recv i s = Some s' \<Longrightarrow> inv_boot s'"
  by (auto simp: monitor_recv_def set_worker_def inv_boot_def
      split: if_splits worker_pc.splits elim!: in_set_updE dest: nth_eq_mem)

lemma discover_boot:
  "inv_boot s \<Longrightarrow> discover_step p s = Some s' \<Longrightarrow> inv_boot s'"
  by (cases "disc s")
    (auto simp: discover_step_def close_files_def inv_boot_def split: if_splits list.splits)

lemma deliver_boot:
  "inv_boot s \<Longrightarrow> deliver i s = Some s' \<Longrightarrow> inv_boot s'"
  by (cases "disc s")
    (auto simp: deliver_def set_worker_def inv_boot_def split: if_splits elim!: in_set_updE)

lemma exec_boot:
  "walk_inv p s \<Longrightarrow> exec p a s = Some s' \<Longrightarrow> inv_boot s'"
  unfolding walk_inv_def exec_def
  by (cases a) (auto split: if_splits intro: main_boot worker_boot worker_nil_boot monitor_boot monitor_recv_boot discover_boot deliver_boot)

subsubsection \<open>The size of the worker pool\<close>

lemma main_pool:
  "inv_pool p s \<Longrightarrow> main_step p s = Some s' \<Longrightarrow> inv_pool p s'"
  by (cases "main s") (auto simp: main_step_def close_kill_def inv_pool_def split: if_splits)

lemma worker_pool:
  "inv_pool p s \<Longrightarrow> worker_step p i s = Some s' \<Longrightarrow> inv_pool p s'"
  by (auto simp: worker_step_def set_worker_def inv_pool_def
      split: if_splits worker_pc.splits option.splits elim!: in_set_updE dest: nth_eq_mem)

lemma worker_nil_pool:
  "inv_pool p s \<Longrightarrow> worker_nil_step i s = Some s' \<Longrightarrow> inv_pool p s'"
  by (auto simp: worker_nil_step_def set_worker_def inv_pool_def
      split: if_splits elim!: in_set_updE)

lemma monitor_pool:
  "inv_pool p s \<Longrightarrow> monitor_step s = Some s' \<Longrightarrow> inv_pool p s'"
  by (cases "mon s") (auto simp: monitor_step_def close_kill_def inv_pool_def split: if_splits)

lemma monitor_recv_pool:
  "inv_pool p s \<Longrightarrow> monitor_recv i s = Some s' \<Longrightarrow> inv_pool p s'"
  by (auto simp: monitor_recv_def set_worker_def inv_pool_def
      split: if_splits worker_pc.splits elim!: in_set_updE dest: nth_eq_mem)

lemma discover_pool:
  "inv_pool p s \<Longrightarrow> discover_step p s = Some s' \<Longrightarrow> inv_pool p s'"
  by (cases "disc s")
    (auto simp: discover_step_def close_files_def inv_pool_def split: if_splits list.splits)

lemma deliver_pool:
  "inv_pool p s \<Longrightarrow> deliver i s = Some s' \<Longrightarrow> inv_pool p s'"
  by (cases "disc s")
    (auto simp: deliver_def set_worker_def inv_pool_def split: if_splits elim!: in_set_updE)

lemma exec_pool:
  "walk_inv p s \<Longrightarrow> exec p a s = Some s' \<Longrightarrow> inv_pool p s'"
  unfolding walk_inv_def exec_def
  by (cases a) (auto split: if_splits intro: main_pool worker_pool worker_nil_pool monitor_pool monitor_recv_pool discover_pool deliver_pool)

subsubsection \<open>The wait group counts the discovery goroutine\<close>

lemma main_wg:
  "inv_wg s \<Longrightarrow> inv_boot s \<Longrightarrow> main_step p s = Some s' \<Longrightarrow> inv_wg s'"
  by (cases "main s")
    (auto simp: main_step_def close_kill_def inv_wg_def inv_boot_def split: if_splits)

lemma worker_wg:
  "inv_wg s \<Longrightarrow> inv_boot s \<Longrightarrow> worker_step p i s = Some s' \<Longrightarrow> inv_wg s'"
  by (drule worker_step_frame) (simp add: inv_wg_def inv_boot_def)

lemma worker_nil_wg:
  "inv_wg s \<Longrightarrow> inv_boot s \<Longrightarrow> worker_nil_step i s = Some s' \<Longrightarrow> inv_wg s'"
  by (drule worker_nil_step_frame) (simp add: inv_wg_def inv_boot_def)

lemma monitor_wg:
  "inv_wg s \<Longrightarrow> inv_boot s \<Longrightarrow> monitor_step s = Some s' \<Longrightarrow> inv_wg s'"
  by (cases "mon s")
    (auto simp: monitor_step_def close_kill_def inv_wg_def inv_boot_def split: if_splits)

lemma monitor_recv_wg:
  "inv_wg s \<Longrightarrow> inv_boot s \<Longrightarrow> monitor_recv i s = Some s' \<Longrightarrow> inv_wg s'"
  by (auto simp: monitor_recv_def set_worker_def inv_wg_def inv_boot_def
      split: if_splits worker_pc.splits elim!: in_set_updE dest: nth_eq_mem)

lemma discover_wg:
  "inv_wg s \<Longrightarrow> inv_boot s \<Longrightarrow> discover_step p s = Some s' \<Longrightarrow> inv_wg s'"
  by (cases "disc s")
    (auto simp: discover_step_def close_files_def inv_wg_def inv_boot_def split: if_splits list.splits)

lemma deliver_wg:
  "inv_wg s \<Longrightarrow> inv_boot s \<Longrightarrow> deliver i s = Some s' \<Longrightarrow> inv_wg s'"
  by (cases "disc s")
    (auto simp: deliver_def set_worker_def inv_wg_def inv_boot_def split: if_splits elim!: in_set_updE)

lemma exec_wg:
  "walk_inv p s \<Longrightarrow> exec p a s = Some s' \<Longrightarrow> inv_wg s'"
  unfolding walk_inv_def exec_def
  by (cases a) (auto split: if_splits intro: main_wg worker_wg worker_nil_wg monitor_wg monitor_recv_wg discover_wg deliver_wg)

subsubsection \<open>The dispatch channel is closed only after cancellation\<close>

lemma main_files:
  "inv_files s \<Longrightarrow> inv_boot s \<Longrightarrow> main_step p s = Some s' \<Longrightarrow> inv_files s'"
  by (cases "main s")
    (auto simp: main_step_def close_kill_def inv_files_def inv_boot_def split: if_splits)

lemma worker_files:
  "inv_files s \<Longrightarrow> inv_boot s \<Longrightarrow> worker_step p i s = Some s' \<Longrightarrow> inv_files s'"
  by (drule worker_step_frame) (simp add: inv_files_def inv_boot_def)

lemma worker_nil_files:
  "inv_files s \<Longrightarrow> inv_boot s \<Longrightarrow> worker_nil_step i s = Some s' \<Longrightarrow> inv_files s'"
  by (drule worker_nil_step_frame) (simp add: inv_files_def inv_boot_def)

lemma monitor_files:
  "inv_files s \<Longrightarrow> inv_boot s \<Longrightarrow> monitor_step s = Some s' \<Longrightarrow> inv_files s'"
  by (cases "mon s")
    (auto simp: monitor_step_def close_kill_def inv_files_def inv_boot_def split: if_splits)

lemma monitor_recv_files:
  "inv_files s \<Longrightarrow> inv_boot s \<Longrightarrow> monitor_recv i s = Some s' \<Longrightarrow> inv_files s'"
  by (auto simp: monitor_recv_def set_worker_def inv_files_def inv_boot_def
      split: if_splits worker_pc.splits elim!: in_set_updE dest: nth_eq_mem)

lemma discover_files:
  "inv_files s \<Longrightarrow> inv_boot s \<Longrightarrow> discover_step p s = Some s' \<Longrightarrow> inv_files s'"
  by (cases "disc s")
    (auto simp: discover_step_def close_files_def inv_files_def inv_boot_def split: if_splits list.splits)

lemma deliver_files:
  "inv_files s \<Longrightarrow> inv_boot s \<Longrightarrow> deliver i s = Some s' \<Longrightarrow> inv_files s'"
  by (cases "disc s")
    (auto simp: deliver_def set_worker_def inv_files_def inv_boot_def split: if_splits elim!: in_set_updE)

lemma exec_files:
  "walk_inv p s \<Longrightarrow> exec p a s = Some s' \<Longrightarrow> inv_files s'"
  unfolding walk_inv_def exec_def
  by (cases a) (auto split: if_splits intro: main_files worker_files worker_nil_files monitor_files monitor_recv_files discover_files deliver_files)

subsubsection \<open>Nobody is parked on a closed cancellation channel\<close>

lemma main_parked:
  "inv_parked s \<Longrightarrow> main_step p s = Some s' \<Longrightarrow> inv_parked s'"
  by (cases "main s") (auto simp: main_step_def close_kill_def inv_parked_def split: if_splits)

lemma worker_parked:
  "inv_parked s \<Longrightarrow> worker_step p i s = Some s' \<Longrightarrow> inv_parked s'"
  by (auto simp: worker_step_def set_worker_def inv_parked_def
      split: if_splits worker_pc.splits option.splits elim!: in_set_updE dest: nth_eq_mem)

lemma worker_nil_parked:
  "inv_parked s \<Longrightarrow> worker_nil_step i s = Some s' \<Longrightarrow> inv_parked s'"
  by (auto simp: worker_nil_step_def set_worker_def inv_parked_def
      split: if_splits elim!: in_set_updE)

lemma monitor_parked:
  "inv_parked s \<Longrightarrow> monitor_step s = Some s' \<Longrightarrow> inv_parked s'"
  by (cases "mon s")
    (auto simp: monitor_step_def close_kill_def inv_parked_def split: if_splits)

lemma monitor_recv_parked:
  "inv_parked s \<Longrightarrow> monitor_recv i s = Some s' \<Longrightarrow> inv_parked s'"
  by (auto simp: monitor_recv_def set_worker_def inv_parked_def
      split: if_splits worker_pc.splits elim!: in_set_updE dest: nth_eq_mem)

lemma discover_parked:
  "inv_parked s \<Longrightarrow> discover_step p s = Some s' \<Longrightarrow> inv_parked s'"
  by (cases "disc s")
    (auto simp: discover_step_def close_files_def inv_parked_def split: if_splits list.splits)

lemma deliver_parked:
  "inv_parked s \<Longrightarrow> deliver i s = Some s' \<Longrightarrow> inv_parked s'"
  by (cases "disc s")
    (auto simp: deliver_def set_worker_def inv_parked_def split: if_splits elim!: in_set_updE)

lemma exec_parked:
  "walk_inv p s \<Longrightarrow> exec p a s = Some s' \<Longrightarrow> inv_parked s'"
  unfolding walk_inv_def exec_def
  by (cases a) (auto split: if_splits intro: main_parked worker_parked worker_nil_parked monitor_parked monitor_recv_parked discover_parked deliver_parked)

subsubsection \<open>The monitor receives at most once\<close>

lemma main_once:
  "inv_once s \<Longrightarrow> inv_boot s \<Longrightarrow> main_step p s = Some s' \<Longrightarrow> inv_once s'"
  by (cases "main s")
    (auto simp: main_step_def close_kill_def inv_once_def inv_boot_def split: if_splits)

lemma worker_once:
  "inv_once s \<Longrightarrow> inv_boot s \<Longrightarrow> worker_step p i s = Some s' \<Longrightarrow> inv_once s'"
  by (drule worker_step_frame) (simp add: inv_once_def inv_boot_def)

lemma worker_nil_once:
  "inv_once s \<Longrightarrow> inv_boot s \<Longrightarrow> worker_nil_step i s = Some s' \<Longrightarrow> inv_once s'"
  by (drule worker_nil_step_frame) (simp add: inv_once_def inv_boot_def)

lemma monitor_once:
  "inv_once s \<Longrightarrow> inv_boot s \<Longrightarrow> monitor_step s = Some s' \<Longrightarrow> inv_once s'"
  by (cases "mon s")
    (auto simp: monitor_step_def close_kill_def inv_once_def inv_boot_def split: if_splits)

lemma monitor_recv_once:
  "inv_once s \<Longrightarrow> inv_boot s \<Longrightarrow> monitor_recv i s = Some s' \<Longrightarrow> inv_once s'"
  by (auto simp: monitor_recv_def set_worker_def inv_once_def inv_boot_def
      split: if_splits worker_pc.splits elim!: in_set_updE dest: nth_eq_mem)

lemma discover_once:
  "inv_once s \<Longrightarrow> inv_boot s \<Longrightarrow> discover_step p s = Some s' \<Longrightarrow> inv_once s'"
  by (cases "disc s")
    (auto simp: discover_step_def close_files_def inv_once_def inv_boot_def split: if_splits list.splits)

lemma deliver_once:
  "inv_once s \<Longrightarrow> inv_boot s \<Longrightarrow> deliver i s = Some s' \<Longrightarrow> inv_once s'"
  by (cases "disc s")
    (auto simp: deliver_def set_worker_def inv_once_def inv_boot_def split: if_splits elim!: in_set_updE)

lemma exec_once:
  "walk_inv p s \<Longrightarrow> exec p a s = Some s' \<Longrightarrow> inv_once s'"
  unfolding walk_inv_def exec_def
  by (cases a) (auto split: if_splits intro: main_once worker_once worker_nil_once monitor_once monitor_recv_once discover_once deliver_once)

subsubsection \<open>Every error in transit was returned by a visitor invocation\<close>

lemma main_prov:
  "inv_prov p s \<Longrightarrow> main_step p s = Some s' \<Longrightarrow> inv_prov p s'"
  by (cases "main s") (auto simp: main_step_def close_kill_def inv_prov_def split: if_splits)

lemma worker_prov:
  "inv_prov p s \<Longrightarrow> worker_step p i s = Some s' \<Longrightarrow> inv_prov p s'"
  by (auto simp: worker_step_def set_worker_def inv_prov_def
      split: if_splits worker_pc.splits option.splits elim!: in_set_updE dest: nth_eq_mem)

lemma worker_nil_prov:
  "inv_prov p s \<Longrightarrow> worker_nil_step i s = Some s' \<Longrightarrow> inv_prov p s'"
  by (auto simp: worker_nil_step_def set_worker_def inv_prov_def
      split: if_splits elim!: in_set_updE)

lemma monitor_prov:
  "inv_prov p s \<Longrightarrow> monitor_step s = Some s' \<Longrightarrow> inv_prov p s'"
  by (cases "mon s") (auto simp: monitor_step_def close_kill_def inv_prov_def split: if_splits)

lemma monitor_recv_prov:
  "inv_prov p s \<Longrightarrow> monitor_recv i s = Some s' \<Longrightarrow> inv_prov p s'"
  by (auto simp: monitor_recv_def set_worker_def inv_prov_def
      split: if_splits worker_pc.splits elim!: in_set_updE dest: nth_eq_mem)

lemma discover_prov:
  "inv_prov p s \<Longrightarrow> discover_step p s = Some s' \<Longrightarrow> inv_prov p s'"
  by (cases "disc s")
    (auto simp: discover_step_def close_files_def inv_prov_def split: if_splits list.splits)

lemma deliver_prov:
  "inv_prov p s \<Longrightarrow> deliver i s = Some s' \<Longrightarrow> inv_prov p s'"
  by (cases "disc s")
    (auto simp: deliver_def set_worker_def inv_prov_def split: if_splits elim!: in_set_updE)

lemma exec_prov:
  "walk_inv p s \<Longrightarrow> exec p a s = Some s' \<Longrightarrow> inv_prov p s'"
  unfolding walk_inv_def exec_def
  by (cases a) (auto split: if_splits intro: main_prov worker_prov worker_nil_prov monitor_prov monitor_recv_prov discover_prov deliver_prov)

subsubsection \<open>Only entries of the tree are visited\<close>

lemma main_entries:
  "inv_entries p s \<Longrightarrow> main_step p s = Some s' \<Longrightarrow> inv_entries p s'"
  by (cases "main s")
    (auto simp: main_step_def close_kill_def inv_entries_def split: if_splits)

lemma worker_entries:
  assumes "inv_entries p s" and "worker_step p i s = Some s'"
  shows "inv_entries p s'"
proof -
  have got: "a \<in> set (entries p)" if "i < length (workers s)" "workers s ! i = WGot (Some a)" for a
    using assms(1) that nth_eq_mem [of i "workers s"] by (simp add: inv_entries_def)
  show ?thesis
    using assms got
    by (auto simp: worker_step_def set_worker_def inv_entries_def
        split: if_splits worker_pc.splits option.splits elim!: in_set_updE)
qed

lemma worker_nil_entries:
  "inv_entries p s \<Longrightarrow> worker_nil_step i s = Some s' \<Longrightarrow> inv_entries p s'"
  by (auto simp: worker_nil_step_def set_worker_def inv_entries_def
      split: if_splits elim!: in_set_updE)

lemma monitor_entries:
  "inv_entries p s \<Longrightarrow> monitor_step s = Some s' \<Longrightarrow> inv_entries p s'"
  by (cases "mon s")
    (auto simp: monitor_step_def close_kill_def inv_entries_def split: if_splits)

lemma monitor_recv_entries:
  "inv_entries p s \<Longrightarrow> monitor_recv i s = Some s' \<Longrightarrow> inv_entries p s'"
  by (auto simp: monitor_recv_def set_worker_def inv_entries_def
      split: if_splits worker_pc.splits elim!: in_set_updE dest: nth_eq_mem)

lemma discover_entries:
  "inv_entries p s \<Longrightarrow> discover_step p s = Some s' \<Longrightarrow> inv_entries p s'"
  by (cases "disc s")
    (auto simp: discover_step_def close_files_def inv_entries_def split: if_splits list.splits)

lemma deliver_entries:
  "inv_entries p s \<Longrightarrow> deliver i s = Some s' \<Longrightarrow> inv_entries p s'"
  by (cases "disc s")
    (auto simp: deliver_def set_worker_def inv_entries_def split: if_splits elim!: in_set_updE)

lemma exec_entries:
  "walk_inv p s \<Longrightarrow> exec p a s = Some s' \<Longrightarrow> inv_entries p s'"
  unfolding walk_inv_def exec_def
  by (cases a) (auto split: if_splits intro: main_entries worker_entries worker_nil_entries monitor_entries monitor_recv_entries discover_entries deliver_entries)

subsubsection \<open>Panics that cannot happen\<close>

lemma main_panic:
  "inv_panic s \<Longrightarrow> inv_files s \<Longrightarrow> inv_wg s \<Longrightarrow> main_step p s = Some s' \<Longrightarrow> inv_panic s'"
  by (cases "main s")
    (auto simp: main_step_def close_kill_def inv_panic_def inv_files_def inv_wg_def split: if_splits)

lemma worker_panic:
  "inv_panic s \<Longrightarrow> inv_files s \<Longrightarrow> inv_wg s \<Longrightarrow> worker_step p i s = Some s' \<Longrightarrow> inv_panic s'"
  by (auto simp: worker_step_def set_worker_def inv_panic_def inv_files_def inv_wg_def
      split: if_splits worker_pc.splits option.splits elim!: in_set_updE dest: nth_eq_mem)

lemma worker_nil_panic:
  "inv_panic s \<Longrightarrow> inv_files s \<Longrightarrow> inv_wg s \<Longrightarrow> worker_nil_step i s = Some s' \<Longrightarrow> inv_panic s'"
  by (auto simp: worker_nil_step_def set_worker_def inv_panic_def inv_files_def inv_wg_def
      split: if_splits elim!: in_set_updE)

lemma monitor_panic:
  "inv_panic s \<Longrightarrow> inv_files s \<Longrightarrow> inv_wg s \<Longrightarrow> monitor_step s = Some s' \<Longrightarrow> inv_panic s'"
  by (cases "mon s")
    (auto simp: monitor_step_def close_kill_def inv_panic_def inv_files_def inv_wg_def split: if_splits)

lemma monitor_recv_panic:
  "inv_panic s \<Longrightarrow> inv_files s \<Longrightarrow> inv_wg s \<Longrightarrow> monitor_recv i s = Some s' \<Longrightarrow> inv_panic s'"
  by (auto simp: monitor_recv_def set_worker_def inv_panic_def inv_files_def inv_wg_def
      split: if_splits worker_pc.splits elim!: in_set_updE dest: nth_eq_mem)

lemma discover_panic:
  "inv_panic s \<Longrightarrow> inv_files s \<Longrightarrow> inv_wg s \<Longrightarrow> discover_step p s = Some s' \<Longrightarrow> inv_panic s'"
  by (cases "disc s")
    (auto simp: discover_step_def close_files_def inv_panic_def inv_files_def inv_wg_def split: if_splits list.splits)

lemma deliver_panic:
  "inv_panic s \<Longrightarrow> inv_files s \<Longrightarrow> inv_wg s \<Longrightarrow> deliver i s = Some s' \<Longrightarrow> inv_panic s'"
  by (cases "disc s")
    (auto simp: deliver_def set_worker_def inv_panic_def inv_files_def inv_wg_def split: if_splits elim!: in_set_updE)

lemma exec_panic:
  "walk_inv p s \<Longrightarrow> exec p a s = Some s' \<Longrightarrow> inv_panic s'"
  unfolding walk_inv_def exec_def
  by (cases a) (auto split: if_splits intro: main_panic worker_panic worker_nil_panic monitor_panic monitor_recv_panic discover_panic deliver_panic)

subsubsection \<open>Past the wait the discovery goroutine has returned\<close>

lemma main_waited:
  "inv_waited s \<Longrightarrow> inv_wg s \<Longrightarrow> inv_boot s \<Longrightarrow> main_step p s = Some s' \<Longrightarrow> inv_waited s'"
  by (cases "main s"; cases "disc s")
    (auto simp: main_step_def close_kill_def inv_waited_def inv_wg_def inv_boot_def
      split: if_splits)

lemma worker_waited:
  "inv_waited s \<Longrightarrow> inv_wg s \<Longrightarrow> inv_boot s \<Longrightarrow> worker_step p i s = Some s' \<Longrightarrow> inv_waited s'"
  by (drule worker_step_frame) (simp add: inv_waited_def inv_wg_def inv_boot_def)

lemma worker_nil_waited:
  "inv_waited s \<Longrightarrow> inv_wg s \<Longrightarrow> inv_boot s \<Longrightarrow> worker_nil_step i s = Some s' \<Longrightarrow> inv_waited s'"
  by (drule worker_nil_step_frame) (simp add: inv_waited_def inv_wg_def inv_boot_def)

lemma monitor_waited:
  "inv_waited s \<Longrightarrow> inv_wg s \<Longrightarrow> inv_boot s \<Longrightarrow> monitor_step s = Some s' \<Longrightarrow> inv_waited s'"
  by (cases "mon s")
    (auto simp: monitor_step_def close_kill_def inv_waited_def inv_wg_def inv_boot_def split: if_splits)

lemma monitor_recv_waited:
  "inv_waited s \<Longrightarrow> inv_wg s \<Longrightarrow> inv_boot s \<Longrightarrow> monitor_recv i s = Some s' \<Longrightarrow> inv_waited s'"
  by (auto simp: monitor_recv_def set_worker_def inv_waited_def inv_wg_def inv_boot_def
      split: if_splits worker_pc.splits)

lemma discover_waited:
  "inv_waited s \<Longrightarrow> inv_wg s \<Longrightarrow> inv_boot s \<Longrightarrow> discover_step p s = Some s' \<Longrightarrow> inv_waited s'"
  by (cases "disc s")
    (auto simp: discover_step_def close_files_def inv_waited_def inv_wg_def inv_boot_def split: if_splits list.splits)

lemma deliver_waited:
  "inv_waited s \<Longrightarrow> inv_wg s \<Longrightarrow> inv_boot s \<Longrightarrow> deliver i s = Some s' \<Longrightarrow> inv_waited s'"
  by (cases "disc s")
    (auto simp: deliver_def set_worker_def inv_waited_def inv_wg_def inv_boot_def split: if_splits)

lemma exec_waited:
  "walk_inv p s \<Longrightarrow> exec p a s = Some s' \<Longrightarrow> inv_waited s'"
  unfolding walk_inv_def exec_def
  by (cases a)
    (auto split: if_splits
      intro: main_waited worker_waited worker_nil_waited monitor_waited monitor_recv_waited discover_waited deliver_waited)

subsubsection \<open>A result exists exactly when the caller has returned\<close>

lemma main_result:
  "inv_result s \<Longrightarrow> main_step p s = Some s' \<Longrightarrow> inv_result s'"
  by (cases "main s")
    (auto simp: main_step_def close_kill_def inv_result_def split: if_splits)

lemma worker_result:
  "inv_result s \<Longrightarrow> worker_step p i s = Some s' \<Longrightarrow> inv_result s'"
  by (drule worker_step_frame) (simp add: inv_result_def)

lemma worker_nil_result:
  "inv_result s \<Longrightarrow> worker_nil_step i s = Some s' \<Longrightarrow> inv_result s'"
  by (drule worker_nil_step_frame) (simp add: inv_result_def)

lemma monitor_result:
  "inv_result s \<Longrightarrow> monitor_step s = Some s' \<Longrightarrow> inv_result s'"
  by (cases "mon s")
    (auto simp: monitor_step_def close_kill_def inv_result_def split: if_splits)

lemma monitor_recv_result:
  "inv_result s \<Longrightarrow> monitor_recv i s = Some s' \<Longrightarrow> inv_result s'"
  by (auto simp: monitor_recv_def set_worker_def inv_result_def
      split: if_splits worker_pc.splits)

lemma discover_result:
  "inv_result s \<Longrightarrow> discover_step p s = Some s' \<Longrightarrow> inv_result s'"
  by (cases "disc s")
    (auto simp: discover_step_def close_files_def inv_result_def split: if_splits list.splits)

lemma deliver_result:
  "inv_result s \<Longrightarrow> deliver i s = Some s' \<Longrightarrow> inv_result s'"
  by (cases "disc s") (auto simp: deliver_def set_worker_def inv_result_def split: if_splits)

lemma exec_result:
  "walk_inv p s \<Longrightarrow> exec p a s = Some s' \<Longrightarrow> inv_result s'"
  unfolding walk_inv_def exec_def
  by (cases a)
    (auto split: if_splits
      intro: main_result worker_result worker_nil_result monitor_result monitor_recv_result discover_result deliver_result)

subsection \<open>All reachable states satisfy the invariants\<close>

lemma inv_init: "walk_inv p init"
  by (simp add: inv_defs init_def)

lemma exec_inv:
  assumes "walk_inv p s" and "exec p a s = Some s'"
  shows "walk_inv p s'"
  unfolding walk_inv_def
  by (intro conjI exec_boot [OF assms] exec_pool [OF assms] exec_wg [OF assms]
      exec_files [OF assms] exec_parked [OF assms] exec_once [OF assms] exec_prov [OF assms]
      exec_entries [OF assms] exec_panic [OF assms] exec_waited [OF assms]
      exec_result [OF assms])

lemma run_inv: "walk_inv p s \<Longrightarrow> run p sched s = Some s' \<Longrightarrow> walk_inv p s'"
proof (induction sched arbitrary: s)
  case Nil
  then show ?case by simp
next
  case (Cons a sched)
  then show ?case by (auto split: option.splits dest: exec_inv)
qed

lemma reachable_inv: "run p sched init = Some s \<Longrightarrow> walk_inv p s"
  using run_inv inv_init by blast

lemma run_append:
  "run p (as @ bs) s = (case run p as s of None \<Rightarrow> None | Some s' \<Rightarrow> run p bs s')"
  by (induction as arbitrary: s) (auto split: option.splits)

lemma run_snoc:
  "run p (as @ [a]) s = (case run p as s of None \<Rightarrow> None | Some s' \<Rightarrow> exec p a s')"
  by (simp add: run_append split: option.splits)

text \<open>The theorems below speak of \<open>run p sched init\<close>; that is \<open>WalkLimit\<close>.\<close>

lemma WalkLimit_run: "WalkLimit (fs p) (root p) (walkFn p) (limit p) sched = run p sched init"
  by (cases p) (simp add: WalkLimit_def)

text \<open>A panic ends every run.\<close>

lemma exec_panicked: "panicked s \<noteq> None \<Longrightarrow> exec p a s = None"
  by (simp add: exec_def)

lemma run_panicked: "panicked s \<noteq> None \<Longrightarrow> run p sched s = Some s' \<Longrightarrow> s' = s"
  by (cases sched) (simp_all add: exec_panicked)

subsection \<open>The caller and the discovery goroutine make progress\<close>

text \<open>
  No step of another goroutine adds work to the calling goroutine or to the discovery
  goroutine, and every step of these two that does not panic takes \<open>todo\<close> down. Until
  the call has returned or the process has panicked one of the two can take a step:
  \<open>main\<close> is blocked only in \<open>wg.Wait()\<close>, and then the discovery goroutine, whose
  delivery never blocks, is not.
\<close>

lemma exec_todo:
  assumes "inv_boot s" and "exec p a s = Some s'"
  shows "todo p s' \<le> todo p s \<and> (caller_side a \<and> panicked s' = None \<longrightarrow> todo p s' < todo p s)"
proof (cases a)
  case Act_main
  with assms show ?thesis
    by (cases "main s")
      (auto simp: exec_def main_step_def close_kill_def todo_def inv_boot_def split: if_splits)
next
  case Act_monitor
  with assms show ?thesis
    by (cases "mon s")
      (auto simp: exec_def monitor_step_def close_kill_def todo_def split: if_splits)
next
  case (Act_worker i)
  with assms worker_step_frame [of p i s s'] show ?thesis
    by (simp add: exec_def todo_def split: if_splits)
next
  case (Act_worker_nil i)
  with assms worker_nil_step_frame [of i s s'] show ?thesis
    by (simp add: exec_def todo_def split: if_splits)
next
  case (Act_monitor_recv i)
  with assms show ?thesis
    by (auto simp: exec_def monitor_recv_def set_worker_def todo_def
        split: if_splits worker_pc.splits)
next
  case Act_discover
  with assms show ?thesis
    by (cases "disc s")
      (auto simp: exec_def discover_step_def close_files_def todo_def split: if_splits list.splits)
next
  case (Act_deliver i)
  with assms show ?thesis
    by (cases "disc s") (auto simp: exec_def deliver_def set_worker_def todo_def split: if_splits)
qed

lemma run_todo:
  "walk_inv p s \<Longrightarrow> run p sched s = Some s' \<Longrightarrow> panicked s' = None \<Longrightarrow>
     todo p s' + length (filter caller_side sched) \<le> todo p s"
proof (induction sched arbitrary: s)
  case Nil
  then show ?case by simp
next
  case (Cons a sched)
  from Cons.prems(2) obtain s1 where s1: "exec p a s = Some s1" and rest: "run p sched s1 = Some s'"
    by (auto split: option.splits)
  have alive: "panicked s1 = None"
  proof (rule ccontr)
    assume "panicked s1 \<noteq> None"
    from run_panicked [OF this rest] this Cons.prems(3) show False by simp
  qed
  have "inv_boot s" using Cons.prems(1) by (simp add: walk_inv_def)
  from exec_todo [OF this s1] alive
  have step: "todo p s1 \<le> todo p s" "caller_side a \<longrightarrow> todo p s1 < todo p s" by simp_all
  have "walk_inv p s1" using exec_inv [OF Cons.prems(1) s1] .
  from Cons.IH [OF this rest Cons.prems(3)] step show ?case by auto
qed

lemma discoverer_enabled:
  assumes "walking (disc s)" and "panicked s = None"
  shows "\<exists>a s'. caller_side a \<and> exec p a s = Some s'"
proof (cases "disc s")
  case (DWalk xs)
  then have "\<exists>s'. exec p Act_discover s = Some s'"
    using assms(2)
    by (cases xs) (auto simp: exec_def discover_step_def close_files_def split: if_splits)
  then show ?thesis using caller_side.simps(2) by blast
next
  case (DSend x xs)
  show ?thesis
  proof (cases "\<not> files_closed s \<and> WParked \<in> set (workers s)")
    case True
    then obtain i where "i < length (workers s)" and "workers s ! i = WParked"
      by (auto simp: in_set_conv_nth)
    with True DSend assms(2) have "\<exists>s'. exec p (Act_deliver i) s = Some s'"
      by (simp add: exec_def deliver_def)
    then show ?thesis using caller_side.simps(3) by blast
  next
    case False
    with DSend assms(2) have "\<exists>s'. exec p Act_discover s = Some s'"
      by (auto simp: exec_def discover_step_def)
    then show ?thesis using caller_side.simps(2) by blast
  qed
next
  case (DReturned r)
  then have "\<exists>s'. exec p Act_discover s = Some s'"
    using assms(2) by (simp add: exec_def discover_step_def)
  then show ?thesis using caller_side.simps(2) by blast
qed (use assms(1) in simp_all)

lemma caller_enabled:
  assumes "walk_inv p s" and "panicked s = None" and "result s = None"
  shows "\<exists>a s'. caller_side a \<and> exec p a s = Some s'"
proof (cases "main s = Main_wait \<and> wg s \<noteq> 0")
  case True
  from assms(1) have "inv_wg s" by (simp add: walk_inv_def)
  with True have "walking (disc s)" by (auto simp: inv_wg_def split: if_splits)
  then show ?thesis using assms(2) by (rule discoverer_enabled)
next
  case False
  from assms(1) have "inv_result s" by (simp add: walk_inv_def)
  with assms(3) have "main s \<noteq> Main_done" by (simp add: inv_result_def)
  with False assms(2) have "\<exists>s'. exec p Act_main s = Some s'"
    by (cases "main s") (auto simp: exec_def main_step_def close_kill_def split: if_splits)
  then show ?thesis using caller_side.simps(1) by blast
qed

lemma todo_positive:
  assumes "walk_inv p s" and "result s = None"
  shows "0 < todo p s"
proof -
  from assms(1) have "inv_result s" by (simp add: walk_inv_def)
  with assms(2) have "main s \<noteq> Main_done" by (simp add: inv_result_def)
  then show ?thesis by (cases "main s") (simp_all add: todo_def)
qed

lemma pending_return:
  assumes "walk_inv p s" and "run p sched s = Some s'" and "panicked s' = None"
    and "result s' = None"
  shows "(\<exists>a s''. caller_side a \<and> exec p a s' = Some s'') \<and>
         length (filter caller_side sched) < todo p s"
proof -
  have inv': "walk_inv p s'" using run_inv [OF assms(1,2)] .
  from run_todo [OF assms(1,2,3)] todo_positive [OF inv' assms(4)]
  have "length (filter caller_side sched) < todo p s" by simp
  with caller_enabled [OF inv' assms(3,4)] show ?thesis by simp
qed

section \<open>The claims\<close>

subsection \<open>Unfolding a concrete run\<close>

lemmas step_defs = exec_def main_step_def worker_step_def worker_nil_step_def monitor_step_def
  monitor_recv_def discover_step_def deliver_def close_kill_def close_files_def set_worker_def
  wake_kill_def wake_files_def

lemmas ex_defs = ex_call_def ex_fs_def dir_entry_def file_entry_def fail_on_def never_fail_def
  entries_def visit_def init_def

subsection \<open>C3: a limit below one\<close>

lemma exec_init_low:
  "limit p < 1 \<Longrightarrow> exec p a init = Some s' \<Longrightarrow> s' = init\<lparr>panicked := Some LimitPanic\<rparr>"
  by (cases a)
    (simp_all add: exec_def init_def main_step_def worker_step_def worker_nil_step_def
      monitor_step_def monitor_recv_def discover_step_def deliver_def)

text \<open>
  Claim C3. For every root and visitor, \<open>WalkLimit\<close> with \<open>limit < 1\<close> panics at
  once: the panic is the first step of the call, and no state other than the initial one
  and the panicked one is ever reached, so that the visitor has not been invoked, the
  discovery goroutine has not been started, no channel and no worker has been created,
  and no value has been returned.
\<close>

theorem limit_below_one_panics:
  assumes "limit p < 1" and "run p sched init = Some s"
  shows "exec p Act_main init = Some (init\<lparr>panicked := Some LimitPanic\<rparr>) \<and>
         (s = init \<or> s = init\<lparr>panicked := Some LimitPanic\<rparr>) \<and>
         calls s = [] \<and> disc s = DNone \<and> workers s = [] \<and> mon s = ENone \<and>
         \<not> chans_made s \<and> result s = None"
proof -
  have first: "exec p Act_main init = Some (init\<lparr>panicked := Some LimitPanic\<rparr>)"
    using assms(1) by (simp add: exec_def init_def main_step_def)
  have "s = init \<or> s = init\<lparr>panicked := Some LimitPanic\<rparr>"
  proof (cases sched)
    case Nil
    with assms(2) show ?thesis by simp
  next
    case (Cons a rest)
    with assms(2) obtain s1 where s1: "exec p a init = Some s1" and rest: "run p rest s1 = Some s"
      by (auto split: option.splits)
    from exec_init_low [OF assms(1) s1] have "s1 = init\<lparr>panicked := Some LimitPanic\<rparr>" .
    with rest run_panicked [of s1 p rest s] show ?thesis by simp
  qed
  then have "calls s = [] \<and> disc s = DNone \<and> workers s = [] \<and> mon s = ENone \<and>
         \<not> chans_made s \<and> result s = None"
    by (auto simp: init_def)
  with first \<open>s = init \<or> s = init\<lparr>panicked := Some LimitPanic\<rparr>\<close> show ?thesis by blast
qed

theorem limit_below_one_panics_witness:
  "limit (ex_call never_fail (-1)) < 1 \<and>
   run (ex_call never_fail (-1)) [Act_main] init = Some (init\<lparr>panicked := Some LimitPanic\<rparr>) \<and>
   calls (init\<lparr>panicked := Some LimitPanic\<rparr>) = [] \<and>
   workers (init\<lparr>panicked := Some LimitPanic\<rparr>) = [] \<and>
   \<not> chans_made (init\<lparr>panicked := Some LimitPanic\<rparr>)"
proof -
  have h1: "limit (ex_call never_fail (-1)) < 1"
    by (simp add: ex_call_def)
  have h2: "run (ex_call never_fail (-1)) [Act_main] init = Some (init\<lparr>panicked := Some LimitPanic\<rparr>)"
    by (simp add: ex_call_def exec_def init_def main_step_def)
  show ?thesis
    using h1 h2 limit_below_one_panics [OF h1 h2] by simp
qed

subsection \<open>C4: the default limit\<close>

text \<open>
  Claim C4. \<open>Walk(root, visitor)\<close> is \<open>WalkLimit(root, visitor, 50)\<close>: under every
  schedule both reach the same state, hence make the same visitor invocations
  (\<open>calls\<close>) and return the same error (\<open>result\<close>); the default limit is 50.
\<close>

theorem Walk_is_WalkLimit_default:
  "Walk f r fn sched = WalkLimit f r fn 50 sched \<and> DefaultConcurrentWalks = 50"
  by (simp add: Walk_def DefaultConcurrentWalks_def)

subsection \<open>C5: who sets the cancellation signal\<close>

lemma main_step_kill:
  "main_step p s = Some s' \<Longrightarrow>
     (kill_closed s \<longrightarrow> kill_closed s') \<and> (kill_closed s' \<longrightarrow> kill_closed s \<or> main s = Main_close)"
  by (cases "main s") (auto simp: main_step_def close_kill_def split: if_splits)

lemma monitor_step_kill:
  "monitor_step s = Some s' \<Longrightarrow>
     (kill_closed s \<longrightarrow> kill_closed s') \<and> (kill_closed s' \<longrightarrow> kill_closed s \<or> mon s = EGot)"
  by (cases "mon s") (auto simp: monitor_step_def close_kill_def split: if_splits)

lemma worker_step_kill: "worker_step p i s = Some s' \<Longrightarrow> kill_closed s' = kill_closed s"
  by (auto simp: worker_step_def set_worker_def split: if_splits worker_pc.splits option.splits)

lemma worker_nil_step_kill: "worker_nil_step i s = Some s' \<Longrightarrow> kill_closed s' = kill_closed s"
  by (auto simp: worker_nil_step_def set_worker_def split: if_splits)

lemma monitor_recv_kill: "monitor_recv i s = Some s' \<Longrightarrow> kill_closed s' = kill_closed s"
  by (auto simp: monitor_recv_def set_worker_def split: if_splits worker_pc.splits)

lemma discover_step_kill: "discover_step p s = Some s' \<Longrightarrow> kill_closed s' = kill_closed s"
  by (cases "disc s") (auto simp: discover_step_def close_files_def split: if_splits list.splits)

lemma deliver_kill: "deliver i s = Some s' \<Longrightarrow> kill_closed s' = kill_closed s"
  by (cases "disc s") (auto simp: deliver_def set_worker_def split: if_splits)

lemma exec_kill:
  assumes "exec p a s = Some s'"
  shows "(kill_closed s \<longrightarrow> kill_closed s') \<and>
         (kill_closed s' \<longrightarrow> kill_closed s \<or> a = Act_monitor \<and> mon s = EGot \<or>
            a = Act_main \<and> main s = Main_close)"
proof (cases a)
  case Act_main
  with assms main_step_kill [of p s s'] show ?thesis by (simp add: exec_def split: if_splits)
next
  case Act_monitor
  with assms monitor_step_kill [of s s'] show ?thesis by (simp add: exec_def split: if_splits)
next
  case (Act_worker i)
  with assms worker_step_kill [of p i s s'] show ?thesis by (simp add: exec_def split: if_splits)
next
  case (Act_worker_nil i)
  with assms worker_nil_step_kill [of i s s'] show ?thesis by (simp add: exec_def split: if_splits)
next
  case (Act_monitor_recv i)
  with assms monitor_recv_kill [of i s s'] show ?thesis by (simp add: exec_def split: if_splits)
next
  case Act_discover
  with assms discover_step_kill [of p s s'] show ?thesis by (simp add: exec_def split: if_splits)
next
  case (Act_deliver i)
  with assms deliver_kill [of i s s'] show ?thesis by (simp add: exec_def split: if_splits)
qed

lemma run_kill: "run p sched s = Some s' \<Longrightarrow> kill_closed s \<Longrightarrow> kill_closed s'"
proof (induction sched arbitrary: s)
  case Nil
  then show ?case by simp
next
  case (Cons a sched)
  then show ?case by (auto split: option.splits dest: exec_kill)
qed

lemma exec_enter_close:
  assumes "exec p a s = Some s'" and "main s' = Main_close" and "main s \<noteq> Main_close"
  shows "a = Act_main \<and> main s = Main_check \<and> walkErr s = None"
proof (cases a)
  case Act_main
  with assms show ?thesis
    by (cases "main s") (auto simp: exec_def main_step_def close_kill_def split: if_splits)
next
  case Act_monitor
  with assms show ?thesis
    by (cases "mon s") (auto simp: exec_def monitor_step_def close_kill_def split: if_splits)
next
  case (Act_worker i)
  with assms worker_step_frame [of p i s s'] show ?thesis
    by (simp add: exec_def split: if_splits)
next
  case (Act_worker_nil i)
  with assms worker_nil_step_frame [of i s s'] show ?thesis
    by (simp add: exec_def split: if_splits)
next
  case (Act_monitor_recv i)
  with assms show ?thesis
    by (auto simp: exec_def monitor_recv_def set_worker_def split: if_splits worker_pc.splits)
next
  case Act_discover
  with assms show ?thesis
    by (cases "disc s")
      (auto simp: exec_def discover_step_def close_files_def split: if_splits list.splits)
next
  case (Act_deliver i)
  with assms show ?thesis
    by (cases "disc s") (auto simp: exec_def deliver_def set_worker_def split: if_splits)
qed

lemma exec_enter_got:
  assumes "exec p a s = Some s'" and "mon s' = EGot" and "mon s \<noteq> EGot"
  shows "a = Act_monitor \<and> (\<exists>e. mon s = EStore e \<and> walkErr s' = Some e)"
proof (cases a)
  case Act_main
  with assms show ?thesis
    by (cases "main s") (auto simp: exec_def main_step_def close_kill_def split: if_splits)
next
  case Act_monitor
  with assms show ?thesis
    by (cases "mon s") (auto simp: exec_def monitor_step_def close_kill_def split: if_splits)
next
  case (Act_worker i)
  with assms worker_step_frame [of p i s s'] show ?thesis
    by (simp add: exec_def split: if_splits)
next
  case (Act_worker_nil i)
  with assms worker_nil_step_frame [of i s s'] show ?thesis
    by (simp add: exec_def split: if_splits)
next
  case (Act_monitor_recv i)
  with assms show ?thesis
    by (auto simp: exec_def monitor_recv_def set_worker_def split: if_splits worker_pc.splits)
next
  case Act_discover
  with assms show ?thesis
    by (cases "disc s")
      (auto simp: exec_def discover_step_def close_files_def split: if_splits list.splits)
next
  case (Act_deliver i)
  with assms show ?thesis
    by (cases "disc s") (auto simp: exec_def deliver_def set_worker_def split: if_splits)
qed

lemma exec_enter_store:
  assumes "exec p a s = Some s'" and "mon s' = EStore e" and "mon s \<noteq> EStore e"
  shows "\<exists>i. a = Act_monitor_recv i \<and> i < length (workers s) \<and> workers s ! i = WSendErr e"
proof (cases a)
  case Act_main
  with assms show ?thesis
    by (cases "main s") (auto simp: exec_def main_step_def close_kill_def split: if_splits)
next
  case Act_monitor
  with assms show ?thesis
    by (cases "mon s") (auto simp: exec_def monitor_step_def close_kill_def split: if_splits)
next
  case (Act_worker i)
  with assms worker_step_frame [of p i s s'] show ?thesis
    by (simp add: exec_def split: if_splits)
next
  case (Act_worker_nil i)
  with assms worker_nil_step_frame [of i s s'] show ?thesis
    by (simp add: exec_def split: if_splits)
next
  case (Act_monitor_recv i)
  with assms show ?thesis
    by (auto simp: exec_def monitor_recv_def set_worker_def split: if_splits worker_pc.splits)
next
  case Act_discover
  with assms show ?thesis
    by (cases "disc s")
      (auto simp: exec_def discover_step_def close_files_def split: if_splits list.splits)
next
  case (Act_deliver i)
  with assms show ?thesis
    by (cases "disc s") (auto simp: exec_def deliver_def set_worker_def split: if_splits)
qed

lemma monitor_closes_after_store:
  assumes "run p sched init = Some s" and "mon s = EGot"
  shows "walkErr s \<noteq> None \<and> (\<exists>f\<in>set (calls s). visit p f = walkErr s)"
proof -
  have "walk_inv p s" using assms(1) by (rule reachable_inv)
  then have "inv_once s" and "inv_prov p s" by (simp_all add: walk_inv_def)
  with assms(2) show ?thesis by (auto simp: inv_once_def inv_prov_def)
qed

lemma caller_closes_after_wait:
  assumes "run p sched init = Some s" and "main s = Main_close"
  shows "disc s = DDone \<and> wg s = 0"
proof -
  have "walk_inv p s" using assms(1) by (rule reachable_inv)
  then have "inv_waited s" and "inv_wg s" by (simp_all add: walk_inv_def)
  with assms(2) show ?thesis by (simp add: inv_waited_def inv_wg_def)
qed

text \<open>
  Claim C5 as stated fails. It says that only the error monitor sets the signal. In a call where no visitor
  fails the monitor never leaves its \<open>select\<close>, and it is the calling goroutine that
  closes \<open>kill\<close> (line 96).
\<close>

theorem kill_set_by_main_counterexample:
  "map_option kill_closed (run (ex_call never_fail 1) quiet_run init) = Some False \<and>
   map_option mon (run (ex_call never_fail 1) quiet_run init) = Some ESelect \<and>
   map_option walkErr (run (ex_call never_fail 1) quiet_run init) = Some None \<and>
   map_option kill_closed (run (ex_call never_fail 1) (quiet_run @ [Act_main]) init) = Some True \<and>
   map_option mon (run (ex_call never_fail 1) (quiet_run @ [Act_main]) init) = Some ESelect"
  by (simp add: ex_defs quiet_run_def step_defs)

text \<open>
  Claim C5, amended. The cancellation signal is never reset: once \<open>kill\<close> is closed
  it stays closed, so it goes from open to closed at most once. A step that closes it is
  a step of the error monitor at line 66 or of the calling goroutine at line 96; the
  workers and the discovery goroutine only read it. The monitor is at line 66 only
  after it has received an error from a worker and stored it in \<open>walkErr\<close>, an error
  that a visitor invocation returned. The calling goroutine is at line 96 only after
  the discovery goroutine has finished (\<open>wg.Wait()\<close> has returned) and the test of line
  95 has read \<open>nil\<close> from \<open>walkErr\<close>.
\<close>

theorem kill_set_once:
  "(run p sched t = Some t' \<and> kill_closed t \<longrightarrow> kill_closed t') \<and>
   (exec p a s = Some s' \<and> \<not> kill_closed s \<and> kill_closed s' \<longrightarrow>
      a = Act_monitor \<and> mon s = EGot \<or> a = Act_main \<and> main s = Main_close) \<and>
   (run p sched0 init = Some s \<and> mon s = EGot \<longrightarrow>
      walkErr s \<noteq> None \<and> (\<exists>f\<in>set (calls s). visit p f = walkErr s)) \<and>
   (run p sched0 init = Some s \<and> main s = Main_close \<longrightarrow> disc s = DDone \<and> wg s = 0) \<and>
   (exec p a s = Some s' \<and> main s' = Main_close \<and> main s \<noteq> Main_close \<longrightarrow>
      a = Act_main \<and> main s = Main_check \<and> walkErr s = None) \<and>
   (exec p a s = Some s' \<and> mon s' = EGot \<and> mon s \<noteq> EGot \<longrightarrow>
      a = Act_monitor \<and> (\<exists>e. mon s = EStore e \<and> walkErr s' = Some e)) \<and>
   (exec p a s = Some s' \<and> mon s' = EStore e \<and> mon s \<noteq> EStore e \<longrightarrow>
      (\<exists>i. a = Act_monitor_recv i \<and> i < length (workers s) \<and> workers s ! i = WSendErr e))"
proof -
  have c1: "run p sched t = Some t' \<and> kill_closed t \<longrightarrow> kill_closed t'"
    using run_kill [of p sched t t'] by blast
  have c2: "exec p a s = Some s' \<and> \<not> kill_closed s \<and> kill_closed s' \<longrightarrow>
      a = Act_monitor \<and> mon s = EGot \<or> a = Act_main \<and> main s = Main_close"
    using exec_kill [of p a s s'] by blast
  have c3: "run p sched0 init = Some s \<and> mon s = EGot \<longrightarrow>
      walkErr s \<noteq> None \<and> (\<exists>f\<in>set (calls s). visit p f = walkErr s)"
    using monitor_closes_after_store [of p sched0 s] by blast
  have c4: "run p sched0 init = Some s \<and> main s = Main_close \<longrightarrow> disc s = DDone \<and> wg s = 0"
    using caller_closes_after_wait [of p sched0 s] by blast
  have c5: "exec p a s = Some s' \<and> main s' = Main_close \<and> main s \<noteq> Main_close \<longrightarrow>
      a = Act_main \<and> main s = Main_check \<and> walkErr s = None"
    using exec_enter_close [of p a s s'] by blast
  have c6: "exec p a s = Some s' \<and> mon s' = EGot \<and> mon s \<noteq> EGot \<longrightarrow>
      a = Act_monitor \<and> (\<exists>e. mon s = EStore e \<and> walkErr s' = Some e)"
    using exec_enter_got [of p a s s'] by blast
  have c7: "exec p a s = Some s' \<and> mon s' = EStore e \<and> mon s \<noteq> EStore e \<longrightarrow>
      (\<exists>i. a = Act_monitor_recv i \<and> i < length (workers s) \<and> workers s ! i = WSendErr e)"
    using exec_enter_store [of p a s s' e] by blast
  show ?thesis
    by (rule conjI [OF c1 conjI [OF c2 conjI [OF c3 conjI [OF c4 conjI [OF c5 conjI [OF c6 c7]]]]]])
qed

theorem kill_set_once_witness:
  "main (the (run (ex_call never_fail 1) quiet_run init)) = Main_close \<and>
   disc (the (run (ex_call never_fail 1) quiet_run init)) = DDone \<and>
   kill_closed (the (run (ex_call never_fail 1) (quiet_run @ [Act_main, Act_main]) init)) \<and>
   mon (the (run (ex_call (fail_on ''d/a.txt'' (Err ''boom'')) 2) cancel_stored init)) = EGot \<and>
   walkErr (the (run (ex_call (fail_on ''d/a.txt'' (Err ''boom'')) 2) cancel_stored init)) \<noteq> None"
proof -
  let ?p = "ex_call never_fail 1"
  let ?s0 = "the (run ?p quiet_run init)"
  let ?s1 = "the (run ?p (quiet_run @ [Act_main]) init)"
  let ?s2 = "the (run ?p (quiet_run @ [Act_main, Act_main]) init)"
  let ?q = "ex_call (fail_on ''d/a.txt'' (Err ''boom'')) 2"
  let ?c = "the (run ?q cancel_stored init)"
  have reach: "run ?p quiet_run init = Some ?s0"
    by (simp add: ex_defs quiet_run_def step_defs)
  have step: "exec ?p Act_main ?s0 = Some ?s1"
    by (simp add: ex_defs quiet_run_def step_defs)
  have rest: "run ?p [Act_main] ?s1 = Some ?s2"
    by (simp add: ex_defs quiet_run_def step_defs)
  have before: "\<not> kill_closed ?s0" and after: "kill_closed ?s1"
    by (simp_all add: ex_defs quiet_run_def step_defs)
  have reach_c: "run ?q cancel_stored init = Some ?c" and got: "mon ?c = EGot"
    by (simp_all add: ex_defs cancel_stored_def step_defs)
  note k = kill_set_once [where p = ?p and sched = "[Act_main]" and t = ?s1 and t' = ?s2
      and a = Act_main and s = ?s0 and s' = ?s1 and ?sched0.0 = quiet_run]
  from k [THEN conjunct1] rest after have "kill_closed ?s2" by simp
  moreover from k [THEN conjunct2, THEN conjunct1] step before after
  have pc: "main ?s0 = Main_close" by simp
  moreover from k [THEN conjunct2, THEN conjunct2, THEN conjunct2, THEN conjunct1] reach pc
  have "disc ?s0 = DDone" by simp
  moreover from kill_set_once [where p = ?q and s = ?c and ?sched0.0 = cancel_stored,
      THEN conjunct2, THEN conjunct2, THEN conjunct1] reach_c got
  have "walkErr ?c \<noteq> None" by simp
  ultimately show ?thesis using got by simp
qed

subsection \<open>C6: closing the dispatch channel\<close>

lemma exec_files_closed:
  assumes "exec p a s = Some s'"
  shows "(files_closed s \<longrightarrow> files_closed s') \<and>
         (files_closed s' \<longrightarrow> files_closed s \<or>
            a = Act_discover \<and> kill_closed s \<and> (\<exists>x xs. disc s = DWalk (x # xs)))"
proof (cases a)
  case Act_main
  with assms show ?thesis
    by (cases "main s") (auto simp: exec_def main_step_def close_kill_def split: if_splits)
next
  case Act_monitor
  with assms show ?thesis
    by (cases "mon s") (auto simp: exec_def monitor_step_def close_kill_def split: if_splits)
next
  case (Act_worker i)
  with assms show ?thesis
    by (auto simp: exec_def worker_step_def set_worker_def
        split: if_splits worker_pc.splits option.splits)
next
  case (Act_worker_nil i)
  with assms show ?thesis
    by (auto simp: exec_def worker_nil_step_def set_worker_def split: if_splits)
next
  case (Act_monitor_recv i)
  with assms show ?thesis
    by (auto simp: exec_def monitor_recv_def set_worker_def split: if_splits worker_pc.splits)
next
  case Act_discover
  with assms show ?thesis
    by (cases "disc s")
      (auto simp: exec_def discover_step_def close_files_def split: if_splits list.splits)
next
  case (Act_deliver i)
  with assms show ?thesis
    by (cases "disc s") (auto simp: exec_def deliver_def set_worker_def split: if_splits)
qed

lemma exec_stopped:
  assumes "inv_boot s" and "stopped (disc s)" and "exec p a s = Some s'"
  shows "disc s' = disc s \<or> disc s' = DDone"
proof (cases a)
  case Act_main
  with assms show ?thesis
    by (cases "main s")
      (auto simp: exec_def main_step_def close_kill_def inv_boot_def split: if_splits)
next
  case Act_monitor
  with assms show ?thesis
    by (cases "mon s") (auto simp: exec_def monitor_step_def close_kill_def split: if_splits)
next
  case (Act_worker i)
  with assms show ?thesis
    by (auto simp: exec_def worker_step_def set_worker_def
        split: if_splits worker_pc.splits option.splits)
next
  case (Act_worker_nil i)
  with assms show ?thesis
    by (auto simp: exec_def worker_nil_step_def set_worker_def split: if_splits)
next
  case (Act_monitor_recv i)
  with assms show ?thesis
    by (auto simp: exec_def monitor_recv_def set_worker_def split: if_splits worker_pc.splits)
next
  case Act_discover
  with assms show ?thesis
    by (cases "disc s")
      (auto simp: exec_def discover_step_def close_files_def split: if_splits list.splits)
next
  case (Act_deliver i)
  with assms show ?thesis
    by (cases "disc s") (auto simp: exec_def deliver_def set_worker_def split: if_splits)
qed

lemma run_stopped:
  "walk_inv p s \<Longrightarrow> stopped (disc s) \<Longrightarrow> run p sched s = Some s' \<Longrightarrow>
     (disc s' = disc s \<or> disc s' = DDone) \<and> files_closed s' = files_closed s"
proof (induction sched arbitrary: s)
  case Nil
  then show ?case by simp
next
  case (Cons a sched)
  from Cons.prems(3) obtain s1 where s1: "exec p a s = Some s1" and rest: "run p sched s1 = Some s'"
    by (auto split: option.splits)
  have boot: "inv_boot s" using Cons.prems(1) by (simp add: walk_inv_def)
  have d1: "disc s1 = disc s \<or> disc s1 = DDone"
    using exec_stopped [OF boot Cons.prems(2) s1] .
  then have st1: "stopped (disc s1)" using Cons.prems(2) by auto
  have f1: "files_closed s1 = files_closed s"
    using exec_files_closed [OF s1] Cons.prems(2) by (cases "disc s") auto
  have "walk_inv p s1" using exec_inv [OF Cons.prems(1) s1] .
  from Cons.IH [OF this st1 rest] d1 f1 show ?case by auto
qed

text \<open>
  Claim C6 as stated fails. It says that the dispatch channel is closed exactly once in
  every call, at normal completion or at cancellation. Here no visitor fails: the call returns \<open>nil\<close>,
  every goroutine has returned, \<open>kill\<close> is closed and \<open>files\<close> has never been closed.
\<close>

theorem files_never_closed_counterexample:
  "map_option main (run (ex_call never_fail 1) quiet_done init) = Some Main_done \<and>
   map_option result (run (ex_call never_fail 1) quiet_done init) = Some (Some None) \<and>
   map_option disc (run (ex_call never_fail 1) quiet_done init) = Some DDone \<and>
   map_option workers (run (ex_call never_fail 1) quiet_done init) = Some [WExit] \<and>
   map_option mon (run (ex_call never_fail 1) quiet_done init) = Some EExit \<and>
   map_option kill_closed (run (ex_call never_fail 1) quiet_done init) = Some True \<and>
   map_option files_closed (run (ex_call never_fail 1) quiet_done init) = Some False"
  by (simp add: ex_defs quiet_run_def quiet_done_def step_defs)

text \<open>
  Claim C6, amended. The dispatch channel is closed at most once and never twice: no
  reachable state has panicked on a second \<open>close(files)\<close>, a closed \<open>files\<close> stays
  closed, and the only step that closes it is the discovery callback finding \<open>kill\<close>
  closed at an entry, after which \<open>filepath.Walk\<close> has returned. When discovery
  completes normally (\<open>filepath.Walk\<close> returns \<open>nil\<close>) the channel is not closed,
  then or later.
\<close>

theorem files_closed_at_most_once:
  assumes "run p sched init = Some s"
  shows "panicked s \<noteq> Some (CloseOfClosed Files) \<and>
         (files_closed s \<longrightarrow>
            kill_closed s \<and> (disc s = DReturned (Some CannotContinue) \<or> disc s = DDone)) \<and>
         (\<forall>a s'. exec p a s = Some s' \<longrightarrow>
            (files_closed s \<longrightarrow> files_closed s') \<and>
            (files_closed s' \<and> \<not> files_closed s \<longrightarrow>
               a = Act_discover \<and> kill_closed s \<and> (\<exists>x xs. disc s = DWalk (x # xs)))) \<and>
         (disc s = DReturned None \<longrightarrow>
            (\<forall>sched' s'. run p sched' s = Some s' \<longrightarrow> \<not> files_closed s'))"
proof -
  have inv: "walk_inv p s" using assms by (rule reachable_inv)
  then have files: "inv_files s" and panic: "inv_panic s" by (simp_all add: walk_inv_def)
  have a: "panicked s \<noteq> Some (CloseOfClosed Files)" using panic by (simp add: inv_panic_def)
  have b: "files_closed s \<longrightarrow>
            kill_closed s \<and> (disc s = DReturned (Some CannotContinue) \<or> disc s = DDone)"
    using files by (simp add: inv_files_def)
  have c: "\<forall>a s'. exec p a s = Some s' \<longrightarrow>
            (files_closed s \<longrightarrow> files_closed s') \<and>
            (files_closed s' \<and> \<not> files_closed s \<longrightarrow>
               a = Act_discover \<and> kill_closed s \<and> (\<exists>x xs. disc s = DWalk (x # xs)))"
    using exec_files_closed by blast
  have d: "disc s = DReturned None \<longrightarrow>
            (\<forall>sched' s'. run p sched' s = Some s' \<longrightarrow> \<not> files_closed s')"
  proof (intro impI allI)
    fix sched' s'
    assume ret: "disc s = DReturned None" and run': "run p sched' s = Some s'"
    from ret b have "\<not> files_closed s" by auto
    with run_stopped [OF inv _ run'] ret show "\<not> files_closed s'" by simp
  qed
  from a b c d show ?thesis by blast
qed

theorem files_closed_at_most_once_witness:
  "files_closed (the (run (ex_call (fail_on ''d/a.txt'' (Err ''boom'')) 2)
      (cancel_run @ [Act_discover]) init)) \<and>
   kill_closed (the (run (ex_call (fail_on ''d/a.txt'' (Err ''boom'')) 2)
      (cancel_run @ [Act_discover]) init)) \<and>
   panicked (the (run (ex_call (fail_on ''d/a.txt'' (Err ''boom'')) 2)
      (cancel_run @ [Act_discover]) init)) \<noteq> Some (CloseOfClosed Files)"
proof -
  let ?p = "ex_call (fail_on ''d/a.txt'' (Err ''boom'')) 2"
  let ?s = "the (run ?p (cancel_run @ [Act_discover]) init)"
  have s: "run ?p (cancel_run @ [Act_discover]) init = Some ?s"
    by (simp add: ex_defs cancel_run_def step_defs)
  have closed: "files_closed ?s"
    by (simp add: ex_defs cancel_run_def step_defs)
  from files_closed_at_most_once [OF s] closed show ?thesis by simp
qed

subsection \<open>C7: the discovery goroutine under cancellation\<close>

lemma exec_enter_send:
  assumes "exec p a s = Some s'" and "disc s' = DSend y ys"
  shows "disc s = DSend y ys \<or> a = Act_discover \<and> disc s = DWalk (y # ys) \<and> \<not> kill_closed s"
proof (cases a)
  case Act_main
  with assms show ?thesis
    by (cases "main s") (auto simp: exec_def main_step_def close_kill_def split: if_splits)
next
  case Act_monitor
  with assms show ?thesis
    by (cases "mon s") (auto simp: exec_def monitor_step_def close_kill_def split: if_splits)
next
  case (Act_worker i)
  with assms show ?thesis
    by (auto simp: exec_def worker_step_def set_worker_def
        split: if_splits worker_pc.splits option.splits)
next
  case (Act_worker_nil i)
  with assms show ?thesis
    by (auto simp: exec_def worker_nil_step_def set_worker_def split: if_splits)
next
  case (Act_monitor_recv i)
  with assms show ?thesis
    by (auto simp: exec_def monitor_recv_def set_worker_def split: if_splits worker_pc.splits)
next
  case Act_discover
  with assms show ?thesis
    by (cases "disc s")
      (auto simp: exec_def discover_step_def close_files_def split: if_splits list.splits)
next
  case (Act_deliver i)
  with assms show ?thesis
    by (cases "disc s") (auto simp: exec_def deliver_def set_worker_def split: if_splits)
qed

lemma deliver_only_at_send: "exec p (Act_deliver i) s = Some s' \<Longrightarrow> \<exists>y ys. disc s = DSend y ys"
  by (cases "disc s") (auto simp: exec_def deliver_def split: if_splits)

text \<open>
  Claim C7. A delivery attempt for an entry (state \<open>DSend\<close>) is entered only through the
  check of the cancellation signal at that entry, and only when the check finds it
  unset. When the check finds it set, the discovery goroutine makes no delivery attempt
  for the entry (no worker receives it, the delivery action is not enabled), closes
  \<open>files\<close>, and \<open>filepath.Walk\<close> returns at once: from then on the goroutine is past
  the walk and presents no further entry.
\<close>

theorem discoverer_stops_when_cancelled:
  assumes "run p sched init = Some s" and "panicked s = None"
    and "disc s = DWalk (x # xs)" and "kill_closed s"
  shows "exec p Act_discover s =
           Some (s\<lparr>files_closed := True, disc := DReturned (Some CannotContinue)\<rparr>) \<and>
         (\<forall>i. exec p (Act_deliver i) s = None) \<and>
         (\<forall>sched' s'.
            run p sched' (s\<lparr>files_closed := True, disc := DReturned (Some CannotContinue)\<rparr>) = Some s'
            \<longrightarrow> disc s' = DReturned (Some CannotContinue) \<or> disc s' = DDone) \<and>
         (\<forall>a t t' y ys. exec p a t = Some t' \<and> disc t' = DSend y ys \<and> disc t \<noteq> DSend y ys
            \<longrightarrow> a = Act_discover \<and> disc t = DWalk (y # ys) \<and> \<not> kill_closed t)"
proof -
  let ?s' = "s\<lparr>files_closed := True, disc := DReturned (Some CannotContinue)\<rparr>"
  have inv: "walk_inv p s" using assms(1) by (rule reachable_inv)
  then have "inv_files s" and "inv_parked s" by (simp_all add: walk_inv_def)
  with assms(3,4) have "\<not> files_closed s" and "WParked \<notin> set (workers s)"
    by (auto simp: inv_files_def inv_parked_def)
  then have step: "exec p Act_discover s = Some ?s'"
    using assms(2,3,4) by (simp add: exec_def discover_step_def close_files_def wake_files_id)
  have no_deliver: "\<forall>i. exec p (Act_deliver i) s = None"
    using assms(3) by (simp add: exec_def deliver_def)
  have inv': "walk_inv p ?s'" using exec_inv [OF inv step] .
  have after: "\<forall>sched' s'. run p sched' ?s' = Some s'
      \<longrightarrow> disc s' = DReturned (Some CannotContinue) \<or> disc s' = DDone"
    using run_stopped [OF inv'] by auto
  have checked: "\<forall>a t t' y ys. exec p a t = Some t' \<and> disc t' = DSend y ys \<and> disc t \<noteq> DSend y ys
            \<longrightarrow> a = Act_discover \<and> disc t = DWalk (y # ys) \<and> \<not> kill_closed t"
    using exec_enter_send by blast
  from step no_deliver after checked show ?thesis by blast
qed

theorem discoverer_stops_when_cancelled_witness:
  "kill_closed (the (run (ex_call (fail_on ''d/a.txt'' (Err ''boom'')) 2) cancel_run init)) \<and>
   disc (the (run (ex_call (fail_on ''d/a.txt'' (Err ''boom'')) 2) cancel_run init)) =
     DWalk [file_entry ''d/b.txt''] \<and>
   map_option files_closed (exec (ex_call (fail_on ''d/a.txt'' (Err ''boom'')) 2) Act_discover
     (the (run (ex_call (fail_on ''d/a.txt'' (Err ''boom'')) 2) cancel_run init))) = Some True \<and>
   map_option disc (exec (ex_call (fail_on ''d/a.txt'' (Err ''boom'')) 2) Act_discover
     (the (run (ex_call (fail_on ''d/a.txt'' (Err ''boom'')) 2) cancel_run init))) =
     Some (DReturned (Some CannotContinue)) \<and>
   exec (ex_call (fail_on ''d/a.txt'' (Err ''boom'')) 2) (Act_deliver 1)
     (the (run (ex_call (fail_on ''d/a.txt'' (Err ''boom'')) 2) cancel_run init)) = None"
proof -
  let ?p = "ex_call (fail_on ''d/a.txt'' (Err ''boom'')) 2"
  let ?s = "the (run ?p cancel_run init)"
  have s: "run ?p cancel_run init = Some ?s"
    by (simp add: ex_defs cancel_run_def step_defs)
  have alive: "panicked ?s = None" and at: "disc ?s = DWalk [file_entry ''d/b.txt'']"
    and cancelled: "kill_closed ?s"
    by (simp_all add: ex_defs cancel_run_def step_defs)
  from discoverer_stops_when_cancelled [OF s alive at cancelled] at cancelled
  show ?thesis by simp
qed

subsection \<open>C2: delivery never blocks\<close>

text \<open>
  Claim C2. At a delivery attempt the send to \<open>files\<close> never blocks. If a worker is
  parked in its \<open>select\<close> the entry is handed to a parked worker, and \<open>default\<close> is not
  taken; if none is parked the entry is skipped: the callback returns \<open>nil\<close>, discovery
  goes on with the next entry, and nothing else in the state changes (no error is
  recorded, no visitor is invoked, nothing is returned). One of the two is always
  enabled.
\<close>

theorem delivery_is_nonblocking:
  assumes "run p sched init = Some s" and "panicked s = None" and "disc s = DSend x xs"
  shows "(\<forall>i. i < length (workers s) \<and> workers s ! i = WParked \<longrightarrow>
            exec p (Act_deliver i) s =
              Some (s\<lparr>workers := (workers s)[i := WGot (Some x)], disc := DWalk xs\<rparr>)) \<and>
         (\<forall>i. \<not> (i < length (workers s) \<and> workers s ! i = WParked) \<longrightarrow>
            exec p (Act_deliver i) s = None) \<and>
         (WParked \<in> set (workers s) \<longrightarrow> exec p Act_discover s = None) \<and>
         (WParked \<notin> set (workers s) \<longrightarrow> exec p Act_discover s = Some (s\<lparr>disc := DWalk xs\<rparr>)) \<and>
         (\<exists>a s'. (a = Act_discover \<or> (\<exists>i. a = Act_deliver i)) \<and> exec p a s = Some s')"
proof -
  have "walk_inv p s" using assms(1) by (rule reachable_inv)
  then have "inv_files s" by (simp add: walk_inv_def)
  with assms(3) have fopen: "\<not> files_closed s" by (auto simp: inv_files_def)
  have hand: "\<forall>i. i < length (workers s) \<and> workers s ! i = WParked \<longrightarrow>
            exec p (Act_deliver i) s =
              Some (s\<lparr>workers := (workers s)[i := WGot (Some x)], disc := DWalk xs\<rparr>)"
    using assms(2,3) fopen by (simp add: exec_def deliver_def set_worker_def)
  have nohand: "\<forall>i. \<not> (i < length (workers s) \<and> workers s ! i = WParked) \<longrightarrow>
            exec p (Act_deliver i) s = None"
    using assms(2,3) by (auto simp: exec_def deliver_def)
  have noskip: "WParked \<in> set (workers s) \<longrightarrow> exec p Act_discover s = None"
    using assms(2,3) fopen by (simp add: exec_def discover_step_def)
  have skip: "WParked \<notin> set (workers s) \<longrightarrow> exec p Act_discover s = Some (s\<lparr>disc := DWalk xs\<rparr>)"
    using assms(2,3) fopen by (simp add: exec_def discover_step_def)
  have progress: "\<exists>a s'. (a = Act_discover \<or> (\<exists>i. a = Act_deliver i)) \<and> exec p a s = Some s'"
  proof (cases "WParked \<in> set (workers s)")
    case True
    then obtain i where "i < length (workers s)" "workers s ! i = WParked"
      by (auto simp: in_set_conv_nth)
    with hand show ?thesis by blast
  next
    case False
    with skip show ?thesis by blast
  qed
  from hand nohand noskip skip progress show ?thesis by blast
qed

theorem delivery_is_nonblocking_witness:
  "workers (the (run (ex_call never_fail 2) offer_parked init)) = [WParked, WParked] \<and>
   map_option workers (exec (ex_call never_fail 2) (Act_deliver 0)
      (the (run (ex_call never_fail 2) offer_parked init))) =
     Some [WGot (Some (dir_entry ''d'')), WParked] \<and>
   exec (ex_call never_fail 2) Act_discover (the (run (ex_call never_fail 2) offer_parked init)) = None \<and>
   workers (the (run (ex_call never_fail 1) offer_busy init)) = [WSelect] \<and>
   map_option workers (exec (ex_call never_fail 1) Act_discover
      (the (run (ex_call never_fail 1) offer_busy init))) = Some [WSelect] \<and>
   map_option calls (exec (ex_call never_fail 1) Act_discover
      (the (run (ex_call never_fail 1) offer_busy init))) = Some [] \<and>
   map_option disc (exec (ex_call never_fail 1) Act_discover
      (the (run (ex_call never_fail 1) offer_busy init))) =
     Some (DWalk [file_entry ''d/a.txt'', file_entry ''d/b.txt''])"
proof -
  let ?p = "ex_call never_fail 2" and ?q = "ex_call never_fail 1"
  let ?s = "the (run ?p offer_parked init)" and ?t = "the (run ?q offer_busy init)"
  have s: "run ?p offer_parked init = Some ?s" and t: "run ?q offer_busy init = Some ?t"
    by (simp_all add: ex_defs offer_parked_def offer_busy_def step_defs)
  have alive: "panicked ?s = None" "panicked ?t = None"
    by (simp_all add: ex_defs offer_parked_def offer_busy_def step_defs)
  have at_s: "disc ?s = DSend (dir_entry ''d'') [file_entry ''d/a.txt'', file_entry ''d/b.txt'']"
    and at_t: "disc ?t = DSend (dir_entry ''d'') [file_entry ''d/a.txt'', file_entry ''d/b.txt'']"
    by (simp_all add: ex_defs offer_parked_def offer_busy_def step_defs)
  have ws: "workers ?s = [WParked, WParked]" and wt: "workers ?t = [WSelect]"
    by (simp_all add: ex_defs offer_parked_def offer_busy_def step_defs)
  from delivery_is_nonblocking [OF s alive(1) at_s] ws
  have "exec ?p (Act_deliver 0) ?s =
      Some (?s\<lparr>workers := [WGot (Some (dir_entry ''d'')), WParked],
        disc := DWalk [file_entry ''d/a.txt'', file_entry ''d/b.txt'']\<rparr>)"
    and "exec ?p Act_discover ?s = None"
    by simp_all
  moreover from delivery_is_nonblocking [OF t alive(2) at_t] wt
  have "exec ?q Act_discover ?t =
      Some (?t\<lparr>disc := DWalk [file_entry ''d/a.txt'', file_entry ''d/b.txt'']\<rparr>)"
    by simp
  moreover have "calls ?t = []"
    by (simp add: ex_defs offer_parked_def offer_busy_def step_defs)
  ultimately show ?thesis using ws wt by simp
qed

subsection \<open>C10: the error that stops the walk stays inside\<close>

text \<open>
  Claim C10. The value \<open>CannotContinue\<close>, which the callback returns to stop
  \<open>filepath.Walk\<close> after cancellation, does not reach the caller: the value
  \<open>filepath.Walk\<close> returns is dropped (from \<open>DReturned r\<close> the goroutine only calls
  \<open>wg.Done()\<close>), and what \<open>WalkLimit\<close> returns is \<open>nil\<close> or a value that a visitor
  invocation made so far has returned. So unless the visitor itself returns
  \<open>CannotContinue\<close> for an entry of the tree, that value is never returned.
\<close>

theorem result_is_nil_or_from_visitor:
  assumes "run p sched init = Some s" and "result s = Some r"
  shows "(r = None \<or> (\<exists>a\<in>set (calls s). visit p a = r)) \<and>
         ((\<forall>a\<in>set (entries p). visit p a \<noteq> Some CannotContinue) \<longrightarrow> r \<noteq> Some CannotContinue)"
proof -
  have "walk_inv p s" using assms(1) by (rule reachable_inv)
  then have once: "inv_once s" and prov: "inv_prov p s" and ent: "inv_entries p s"
    by (simp_all add: walk_inv_def)
  have from_visitor: "r = None \<or> (\<exists>a\<in>set (calls s). visit p a = r)"
  proof (cases r)
    case None
    then show ?thesis by simp
  next
    case (Some e)
    with assms(2) once have "walkErr s = Some e" by (simp add: inv_once_def)
    with prov Some show ?thesis by (simp add: inv_prov_def)
  qed
  moreover have "set (calls s) \<subseteq> set (entries p)" using ent by (simp add: inv_entries_def)
  ultimately show ?thesis by auto
qed

theorem result_is_nil_or_from_visitor_witness:
  "map_option disc (run (ex_call (fail_on ''d/a.txt'' (Err ''boom'')) 2)
      (cancel_run @ [Act_discover]) init) = Some (DReturned (Some CannotContinue)) \<and>
   result (the (run (ex_call (fail_on ''d/a.txt'' (Err ''boom'')) 2) cancel_done init)) =
     Some (Some (Err ''boom'')) \<and>
   (\<exists>a\<in>set (calls (the (run (ex_call (fail_on ''d/a.txt'' (Err ''boom'')) 2) cancel_done init))).
      visit (ex_call (fail_on ''d/a.txt'' (Err ''boom'')) 2) a = Some (Err ''boom''))"
proof -
  let ?p = "ex_call (fail_on ''d/a.txt'' (Err ''boom'')) 2"
  let ?s = "the (run ?p cancel_done init)"
  have s: "run ?p cancel_done init = Some ?s"
    by (simp add: ex_defs cancel_run_def cancel_done_def step_defs)
  have r: "result ?s = Some (Some (Err ''boom''))"
    by (simp add: ex_defs cancel_run_def cancel_done_def step_defs)
  have d: "map_option disc (run ?p (cancel_run @ [Act_discover]) init) =
      Some (DReturned (Some CannotContinue))"
    by (simp add: ex_defs cancel_run_def cancel_done_def step_defs)
  from result_is_nil_or_from_visitor [OF s r] r d show ?thesis by simp
qed

subsection \<open>C1: what \<open>WalkLimit\<close> returns\<close>

lemma exec_walkErr_kept:
  assumes "inv_once s" and "walkErr s = Some e" and "exec p a s = Some s'"
  shows "walkErr s' = Some e \<and> (result s' = result s \<or> result s' = Some (Some e))"
proof (cases a)
  case Act_main
  with assms show ?thesis
    by (cases "main s") (auto simp: exec_def main_step_def close_kill_def split: if_splits)
next
  case Act_monitor
  with assms show ?thesis
    by (cases "mon s")
      (auto simp: exec_def monitor_step_def close_kill_def inv_once_def split: if_splits)
next
  case (Act_worker i)
  with assms show ?thesis
    by (auto simp: exec_def worker_step_def set_worker_def
        split: if_splits worker_pc.splits option.splits)
next
  case (Act_worker_nil i)
  with assms show ?thesis
    by (auto simp: exec_def worker_nil_step_def set_worker_def split: if_splits)
next
  case (Act_monitor_recv i)
  with assms show ?thesis
    by (auto simp: exec_def monitor_recv_def inv_once_def split: if_splits)
next
  case Act_discover
  with assms show ?thesis
    by (cases "disc s")
      (auto simp: exec_def discover_step_def close_files_def split: if_splits list.splits)
next
  case (Act_deliver i)
  with assms show ?thesis
    by (cases "disc s") (auto simp: exec_def deliver_def set_worker_def split: if_splits)
qed

lemma run_walkErr_kept:
  "walk_inv p s \<Longrightarrow> walkErr s = Some e \<Longrightarrow> run p sched s = Some s' \<Longrightarrow>
     walkErr s' = Some e \<and> (result s' = result s \<or> result s' = Some (Some e))"
proof (induction sched arbitrary: s)
  case Nil
  then show ?case by simp
next
  case (Cons a sched)
  from Cons.prems(3) obtain s1 where s1: "exec p a s = Some s1" and rest: "run p sched s1 = Some s'"
    by (auto split: option.splits)
  have "inv_once s" using Cons.prems(1) by (simp add: walk_inv_def)
  from exec_walkErr_kept [OF this Cons.prems(2) s1]
  have k1: "walkErr s1 = Some e" and r1: "result s1 = result s \<or> result s1 = Some (Some e)"
    by simp_all
  have "walk_inv p s1" using exec_inv [OF Cons.prems(1) s1] .
  from Cons.IH [OF this k1 rest] r1 show ?case by auto
qed




subsection \<open>C9: \<open>SkipDir\<close> from the visitor\<close>

lemma worker_forwards_error:
  assumes "panicked s = None" and "i < length (workers s)"
    and "workers s ! i = WGot (Some file)" and "visit p file = Some e"
  shows "exec p (Act_worker i) s =
           Some (s\<lparr>workers := (workers s)[i := WSendErr e], calls := calls s @ [file]\<rparr>)"
  using assms by (simp add: exec_def worker_step_def set_worker_def)

lemma monitor_receives_error:
  assumes "panicked t = None" and "i < length (workers t)" and "workers t ! i = WSendErr e"
    and "mon t = ESelect \<or> mon t = EParked"
  shows "exec p (Act_monitor_recv i) t =
           Some (t\<lparr>workers := (workers t)[i := WSelect], mon := EStore e\<rparr>)"
  using assms by (auto simp: exec_def monitor_recv_def set_worker_def)

lemma monitor_stores_error:
  assumes "panicked t = None" and "mon t = EStore e"
  shows "exec p Act_monitor t = Some (t\<lparr>walkErr := Some e, mon := EGot\<rparr>)"
  using assms by (simp add: exec_def monitor_step_def)

lemma monitor_cancels:
  assumes "panicked t = None" and "mon t = EGot" and "\<not> kill_closed t"
  shows "\<exists>t'. exec p Act_monitor t = Some t' \<and> kill_closed t'"
  using assms by (simp add: exec_def monitor_step_def close_kill_def)

text \<open>
  Claim C9 as stated fails, in two ways. It says that \<open>WalkLimit\<close> returns \<open>SkipDir\<close>
  whenever the visitor returns it for some entry. In the first run the visitor has been
  invoked on the directory \<open>d\<close> and has returned \<open>SkipDir\<close>; the worker stands at
  \<open>errs <- err\<close>, both files of the directory have been presented, \<open>files\<close> has not
  been closed, and \<open>WalkLimit\<close> returns \<open>nil\<close>: as for any other error (see C1),
  nothing waits for the monitor to receive it. In the second run the monitor has
  received \<open>SkipDir\<close>, stored it and closed \<open>kill\<close>, and the process panics at the
  \<open>close(kill)\<close> of line 96 before \<open>WalkLimit\<close> has returned anything.
\<close>

theorem skipdir_not_returned_counterexample:
  "visit (ex_call (fail_on ''d'' SkipDir) 1) (dir_entry ''d'') = Some SkipDir \<and>
   map_option calls (run (ex_call (fail_on ''d'' SkipDir) 1) skipdir_lost init) =
     Some [dir_entry ''d''] \<and>
   map_option workers (run (ex_call (fail_on ''d'' SkipDir) 1) skipdir_lost init) =
     Some [WSendErr SkipDir] \<and>
   map_option files_closed (run (ex_call (fail_on ''d'' SkipDir) 1) skipdir_lost init) =
     Some False \<and>
   map_option result (run (ex_call (fail_on ''d'' SkipDir) 1) skipdir_lost init) =
     Some (Some None) \<and>
   map_option walkErr (run (ex_call (fail_on ''d'' SkipDir) 1) skipdir_crash init) =
     Some (Some SkipDir) \<and>
   map_option panicked (run (ex_call (fail_on ''d'' SkipDir) 1) skipdir_crash init) =
     Some (Some (CloseOfClosed Kill)) \<and>
   map_option result (run (ex_call (fail_on ''d'' SkipDir) 1) skipdir_crash init) =
     Some None"
  by (simp add: ex_defs skipdir_lost_def skipdir_crash_def step_defs)

text \<open>
  Claim C9, amended. The worker does not look at the error its visitor returns: for
  every error \<open>e\<close>, lemmas \<open>worker_forwards_error\<close>, \<open>monitor_receives_error\<close>,
  \<open>monitor_stores_error\<close> and \<open>monitor_cancels\<close> describe the path from the visitor to
  the cancellation, and \<open>SkipDir\<close> is one instance. A visitor returning \<open>SkipDir\<close> sends
  its worker to \<open>errs <- SkipDir\<close>, with the discovery goroutine unchanged (no directory
  is skipped); the monitor that receives it stores it in \<open>walkErr\<close>, and its next step
  closes \<open>kill\<close> if it is still open. Once \<open>walkErr\<close> holds \<open>SkipDir\<close>, a call that has not returned yet
  returns \<open>SkipDir\<close> and nothing else; and unless the process panics it does return,
  within \<open>todo\<close> steps of the calling goroutine and the discovery goroutine, one of
  which can always take a step.
\<close>

theorem skipdir_is_forwarded:
  assumes "run p sched init = Some s" and "panicked s = None" and "i < length (workers s)"
    and "workers s ! i = WGot (Some file)" and "visit p file = Some SkipDir"
  shows "exec p (Act_worker i) s =
           Some (s\<lparr>workers := (workers s)[i := WSendErr SkipDir], calls := calls s @ [file]\<rparr>) \<and>
         (\<forall>t j. panicked t = None \<and> j < length (workers t) \<and> workers t ! j = WSendErr SkipDir \<and>
            (mon t = ESelect \<or> mon t = EParked) \<longrightarrow>
            exec p (Act_monitor_recv j) t =
              Some (t\<lparr>workers := (workers t)[j := WSelect], mon := EStore SkipDir\<rparr>)) \<and>
         (\<forall>t. panicked t = None \<and> mon t = EStore SkipDir \<longrightarrow>
            exec p Act_monitor t = Some (t\<lparr>walkErr := Some SkipDir, mon := EGot\<rparr>)) \<and>
         (\<forall>t. panicked t = None \<and> mon t = EGot \<and> \<not> kill_closed t \<longrightarrow>
            (\<exists>t'. exec p Act_monitor t = Some t' \<and> kill_closed t')) \<and>
         (\<forall>sched1 sched2 t u r. run p sched1 init = Some t \<and> walkErr t = Some SkipDir \<and>
            result t = None \<and> run p sched2 t = Some u \<and> result u = Some r \<longrightarrow> r = Some SkipDir) \<and>
         (\<forall>sched1 sched2 t u. run p sched1 init = Some t \<and> walkErr t = Some SkipDir \<and>
            result t = None \<and> run p sched2 t = Some u \<and> panicked u = None \<longrightarrow>
            result u = Some (Some SkipDir) \<or>
            result u = None \<and> (\<exists>a u'. caller_side a \<and> exec p a u = Some u') \<and>
              length (filter caller_side sched2) < todo p t)"
proof -
  have fwd: "exec p (Act_worker i) s =
           Some (s\<lparr>workers := (workers s)[i := WSendErr SkipDir], calls := calls s @ [file]\<rparr>)"
    using worker_forwards_error [OF assms(2-5)] .
  have recv: "\<forall>t j. panicked t = None \<and> j < length (workers t) \<and> workers t ! j = WSendErr SkipDir \<and>
            (mon t = ESelect \<or> mon t = EParked) \<longrightarrow>
            exec p (Act_monitor_recv j) t =
              Some (t\<lparr>workers := (workers t)[j := WSelect], mon := EStore SkipDir\<rparr>)"
    using monitor_receives_error by blast
  have store: "\<forall>t. panicked t = None \<and> mon t = EStore SkipDir \<longrightarrow>
            exec p Act_monitor t = Some (t\<lparr>walkErr := Some SkipDir, mon := EGot\<rparr>)"
    using monitor_stores_error by blast
  have cancel: "\<forall>t. panicked t = None \<and> mon t = EGot \<and> \<not> kill_closed t \<longrightarrow>
            (\<exists>t'. exec p Act_monitor t = Some t' \<and> kill_closed t')"
    using monitor_cancels by blast
  have ret: "\<forall>sched1 sched2 t u r. run p sched1 init = Some t \<and> walkErr t = Some SkipDir \<and>
            result t = None \<and> run p sched2 t = Some u \<and> result u = Some r \<longrightarrow> r = Some SkipDir"
  proof (intro allI impI)
    fix sched1 sched2 t u r
    assume h: "run p sched1 init = Some t \<and> walkErr t = Some SkipDir \<and>
            result t = None \<and> run p sched2 t = Some u \<and> result u = Some r"
    then have "walk_inv p t" using reachable_inv by blast
    from run_walkErr_kept [OF this, of SkipDir sched2 u] h show "r = Some SkipDir" by auto
  qed
  have total: "\<forall>sched1 sched2 t u. run p sched1 init = Some t \<and> walkErr t = Some SkipDir \<and>
            result t = None \<and> run p sched2 t = Some u \<and> panicked u = None \<longrightarrow>
            result u = Some (Some SkipDir) \<or>
            result u = None \<and> (\<exists>a u'. caller_side a \<and> exec p a u = Some u') \<and>
              length (filter caller_side sched2) < todo p t"
  proof (intro allI impI)
    fix sched1 sched2 t u
    assume h: "run p sched1 init = Some t \<and> walkErr t = Some SkipDir \<and>
            result t = None \<and> run p sched2 t = Some u \<and> panicked u = None"
    then have inv: "walk_inv p t" using reachable_inv by blast
    from h have cont: "run p sched2 t = Some u" and alive: "panicked u = None" by simp_all
    from h run_walkErr_kept [OF inv, of SkipDir sched2 u]
    have "result u = None \<or> result u = Some (Some SkipDir)" by auto
    then show "result u = Some (Some SkipDir) \<or>
            result u = None \<and> (\<exists>a u'. caller_side a \<and> exec p a u = Some u') \<and>
              length (filter caller_side sched2) < todo p t"
    proof
      assume none: "result u = None"
      from pending_return [OF inv cont alive none] none show ?thesis by blast
    next
      assume "result u = Some (Some SkipDir)"
      then show ?thesis by simp
    qed
  qed
  show ?thesis
    by (rule conjI [OF fwd conjI [OF recv conjI [OF store conjI [OF cancel conjI [OF ret total]]]]])
qed

theorem skipdir_is_forwarded_witness:
  "workers (the (run (ex_call (fail_on ''d'' SkipDir) 2) skipdir_run init)) =
     [WGot (Some (dir_entry ''d'')), WGot (Some (file_entry ''d/a.txt''))] \<and>
   map_option workers (exec (ex_call (fail_on ''d'' SkipDir) 2) (Act_worker 0)
       (the (run (ex_call (fail_on ''d'' SkipDir) 2) skipdir_run init))) =
     Some [WSendErr SkipDir, WGot (Some (file_entry ''d/a.txt''))] \<and>
   map_option result (run (ex_call (fail_on ''d'' SkipDir) 2)
       (skipdir_run @ Act_worker 0 # skipdir_rest) init) = Some (Some (Some SkipDir)) \<and>
   map_option calls (run (ex_call (fail_on ''d'' SkipDir) 2)
       (skipdir_run @ Act_worker 0 # skipdir_rest) init) =
     Some [dir_entry ''d'', file_entry ''d/a.txt'']"
proof -
  let ?p = "ex_call (fail_on ''d'' SkipDir) 2"
  let ?s = "the (run ?p skipdir_run init)"
  have s: "run ?p skipdir_run init = Some ?s"
    by (simp add: ex_defs skipdir_run_def skipdir_rest_def step_defs)
  have alive: "panicked ?s = None" and ws: "workers ?s !
      0 = WGot (Some (dir_entry ''d''))" and len: "0 < length (workers ?s)"
    by (simp_all add: ex_defs skipdir_run_def skipdir_rest_def step_defs)
  have v: "visit ?p (dir_entry ''d'') = Some SkipDir"
    by (simp add: ex_defs)
  have all: "workers ?s = [WGot (Some (dir_entry ''d'')), WGot (Some (file_entry ''d/a.txt''))]"
    by (simp add: ex_defs skipdir_run_def skipdir_rest_def step_defs)
  have fin: "map_option result (run ?p (skipdir_run @ Act_worker 0 # skipdir_rest) init) =
      Some (Some (Some SkipDir))"
    "map_option calls (run ?p (skipdir_run @ Act_worker 0 # skipdir_rest) init) =
      Some [dir_entry ''d'', file_entry ''d/a.txt'']"
    by (simp_all add: ex_defs skipdir_run_def skipdir_rest_def step_defs)
  from skipdir_is_forwarded [OF s alive len ws v, THEN conjunct1] all fin
  show ?thesis by simp
qed

subsection \<open>C8: limit one\<close>

lemma run_seq: "run p as s = Some s1 \<Longrightarrow> run p bs s1 = Some s2 \<Longrightarrow> run p (as @ bs) s = Some s2"
  by (simp add: run_append)

lemma spawn_loop:
  "main s = Main_spawn i \<Longrightarrow> panicked s = None \<Longrightarrow> i + int k = limit p \<Longrightarrow>
     run p (replicate k Act_main) s =
       Some (s\<lparr>workers := workers s @ replicate k WSelect, main := Main_spawn (limit p)\<rparr>)"
proof (induction k arbitrary: s i)
  case 0
  then show ?case by simp
next
  case (Suc k)
  let ?s1 = "s\<lparr>workers := workers s @ [WSelect], main := Main_spawn (i + 1)\<rparr>"
  have step: "exec p Act_main s = Some ?s1"
    using Suc.prems by (simp add: exec_def main_step_def)
  have "run p (replicate k Act_main) ?s1 =
      Some (?s1\<lparr>workers := workers ?s1 @ replicate k WSelect, main := Main_spawn (limit p)\<rparr>)"
    using Suc.prems by (intro Suc.IH [of ?s1 "i + 1"]) simp_all
  with step show ?case by (simp add: replicate_app_Cons_same)
qed

lemma run_boot:
  assumes "limit p = int (Suc m)"
  shows "run p (boot m) init = Some (booted p m)"
proof -
  let ?s1 = "init\<lparr>chans_made := True, main := Main_spawn 0\<rparr>"
  let ?s2 = "?s1\<lparr>workers := workers ?s1 @ replicate (Suc m) WSelect, main := Main_spawn (limit p)\<rparr>"
  have a: "run p [Act_main] init = Some ?s1"
    using assms by (simp add: exec_def main_step_def init_def)
  have b: "run p (replicate (Suc m) Act_main) ?s1 = Some ?s2"
    using assms by (intro spawn_loop [of ?s1 0]) (simp_all add: init_def)
  have c: "run p [Act_main, Act_main, Act_main] ?s2 = Some (booted p m)"
    by (simp add: exec_def main_step_def init_def booted_def)
  have "boot m = [Act_main] @ replicate (Suc m) Act_main @ [Act_main, Act_main, Act_main]"
    by (simp add: boot_def)
  with run_seq [OF a run_seq [OF b c]] show ?thesis by simp
qed

lemma run_skips:
  "disc s = DWalk (xs @ ys) \<Longrightarrow> panicked s = None \<Longrightarrow> \<not> kill_closed s \<Longrightarrow>
   \<not> files_closed s \<Longrightarrow> WParked \<notin> set (workers s) \<Longrightarrow>
     run p (skips xs) s = Some (s\<lparr>disc := DWalk ys\<rparr>)"
proof (induction xs arbitrary: s)
  case Nil
  then show ?case by simp
next
  case (Cons x xs)
  let ?s1 = "s\<lparr>disc := DSend x (xs @ ys)\<rparr>" and ?s2 = "s\<lparr>disc := DWalk (xs @ ys)\<rparr>"
  have a: "exec p Act_discover s = Some ?s1"
    using Cons.prems by (simp add: exec_def discover_step_def)
  have b: "exec p Act_discover ?s1 = Some ?s2"
    using Cons.prems by (simp add: exec_def discover_step_def)
  have "run p (skips xs) ?s2 = Some (?s2\<lparr>disc := DWalk ys\<rparr>)"
    using Cons.prems by (intro Cons.IH) simp_all
  with a b show ?case by simp
qed

lemma may_return_nil:
  assumes "1 \<le> limit p"
  shows "may_return p None"
proof -
  define m where "m = nat (limit p - 1)"
  then have m: "limit p = int (Suc m)" using assms by simp
  let ?s0 = "booted p m"
  let ?s1 = "?s0\<lparr>disc := DWalk []\<rparr>"
  let ?s2 = "?s0\<lparr>main := Main_done, disc := DDone, kill_closed := True, wg := 0, result := Some None\<rparr>"
  have a: "run p (boot m) init = Some ?s0" using run_boot [OF m] .
  have b: "run p (skips (entries p)) ?s0 = Some ?s1"
    by (intro run_skips [where ys = "[]"]) (simp_all add: booted_def init_def)
  have c: "run p [Act_discover, Act_discover, Act_main, Act_main, Act_main, Act_main] ?s1 = Some ?s2"
    by (simp add: exec_def discover_step_def main_step_def close_kill_def booted_def init_def
        wake_kill_def)
  have "run p (boot m @ skips (entries p) @
      [Act_discover, Act_discover, Act_main, Act_main, Act_main, Act_main]) init = Some ?s2"
    by (rule run_seq [OF a run_seq [OF b c]])
  moreover have "result ?s2 = Some None" by simp
  ultimately show ?thesis unfolding may_return_def by blast
qed

lemma may_return_error:
  assumes "1 \<le> limit p" and "b \<in> set (entries p)" and "visit p b = Some e"
  shows "may_return p (Some e)"
proof -
  define m where "m = nat (limit p - 1)"
  then have m: "limit p = int (Suc m)" using assms(1) by simp
  from assms(2) obtain pre post where split: "entries p = pre @ b # post"
    by (auto dest: split_list)
  let ?ws = "WSelect # replicate m WSelect"
  let ?s0 = "booted p m"
  let ?s1 = "?s0\<lparr>disc := DWalk (b # post)\<rparr>"
  let ?s2 = "?s0\<lparr>disc := DWalk post, walkErr := Some e, mon := EGot, calls := [b]\<rparr>"
  let ?s3 = "?s2\<lparr>disc := DWalk []\<rparr>"
  let ?s4 = "?s2\<lparr>main := Main_done, disc := DDone, wg := 0, result := Some (Some e)\<rparr>"
  have a: "run p (boot m) init = Some ?s0" using run_boot [OF m] .
  have b: "run p (skips pre) ?s0 = Some ?s1"
    using split by (intro run_skips) (simp_all add: booted_def init_def)
  have c: "run p [Act_discover, Act_worker 0, Act_deliver 0, Act_worker 0, Act_monitor_recv 0,
      Act_monitor] ?s1 = Some ?s2"
    using assms(3)
    by (simp add: exec_def discover_step_def worker_step_def deliver_def monitor_recv_def
        monitor_step_def set_worker_def booted_def init_def)
  have d: "run p (skips post) ?s2 = Some ?s3"
    by (intro run_skips [where ys = "[]"]) (simp_all add: booted_def init_def)
  have f: "run p [Act_discover, Act_discover, Act_main, Act_main, Act_main] ?s3 = Some ?s4"
    by (simp add: exec_def discover_step_def main_step_def booted_def init_def)
  have "run p (boot m @ skips pre @
      [Act_discover, Act_worker 0, Act_deliver 0, Act_worker 0, Act_monitor_recv 0,
       Act_monitor] @ skips post @
      [Act_discover, Act_discover, Act_main, Act_main, Act_main]) init = Some ?s4"
    by (rule run_seq [OF a run_seq [OF b run_seq [OF c run_seq [OF d f]]]])
  moreover have "result ?s4 = Some (Some e)" by simp
  ultimately show ?thesis unfolding may_return_def by blast
qed

lemma returned_error_source:
  assumes "run p sched init = Some s" and "result s = Some (Some e)"
  shows "\<exists>a\<in>set (entries p). visit p a = Some e"
proof -
  have "walk_inv p s" using assms(1) by (rule reachable_inv)
  then have once: "inv_once s" and prov: "inv_prov p s" and ent: "inv_entries p s"
    by (simp_all add: walk_inv_def)
  from assms(2) once have "walkErr s = Some e" by (simp add: inv_once_def)
  with prov obtain a where "a \<in> set (calls s)" and "visit p a = Some e"
    by (auto simp: inv_prov_def)
  moreover have "set (calls s) \<subseteq> set (entries p)" using ent by (simp add: inv_entries_def)
  ultimately show ?thesis by blast
qed

lemma may_return_iff:
  assumes "1 \<le> limit p"
  shows "may_return p r \<longleftrightarrow> r = None \<or> (\<exists>a\<in>set (entries p). visit p a = r)"
proof (cases r)
  case None
  with may_return_nil [OF assms] show ?thesis by simp
next
  case (Some e)
  show ?thesis
  proof
    assume "may_return p r"
    with Some returned_error_source [of p _ _ e] show "r = None \<or> (\<exists>a\<in>set (entries p). visit p a = r)"
      unfolding may_return_def by blast
  next
    assume "r = None \<or> (\<exists>a\<in>set (entries p). visit p a = r)"
    with Some obtain a where "a \<in> set (entries p)" and "visit p a = Some e" by auto
    with may_return_error [OF assms] Some show "may_return p r" by simp
  qed
qed

lemma in_flight_bound:
  assumes "run p sched init = Some s"
  shows "int (in_flight s) \<le> max 0 (limit p)"
proof -
  have "walk_inv p s" using assms by (rule reachable_inv)
  then have "inv_pool p s" by (simp add: walk_inv_def)
  then have "int (length (workers s)) \<le> max 0 (limit p)"
    by (cases "main s") (auto simp: inv_pool_def)
  moreover have "in_flight s \<le> length (workers s)"
    by (simp add: in_flight_def)
  ultimately show ?thesis by linarith
qed

text \<open>
  Claim C8 as stated fails. It says that limit 1 produces the same nil/non-nil outcome
  as a higher limit on the same tree and visitor. The outcome is not a function of tree, visitor and limit:
  with the visitor failing on \<open>d/a.txt\<close>, a call with limit 1 returns \<open>nil\<close> (every
  entry is skipped, no worker being parked), a call with limit 2 returns \<open>boom\<close>, and
  another call with limit 1 returns \<open>boom\<close> too.
\<close>

theorem outcome_depends_on_schedule_counterexample:
  "map_option result (run (ex_call (fail_on ''d/a.txt'' (Err ''boom'')) 1) quiet_done init) =
     Some (Some None) \<and>
   map_option result (run (ex_call (fail_on ''d/a.txt'' (Err ''boom'')) 2) cancel_done init) =
     Some (Some (Some (Err ''boom''))) \<and>
   map_option result (run (ex_call (fail_on ''d/a.txt'' (Err ''boom'')) 1) serial_fail init) =
     Some (Some (Some (Err ''boom'')))"
  by (simp add: ex_defs quiet_run_def cancel_run_def quiet_done_def cancel_done_def serial_fail_def step_defs)

text \<open>
  Claim C8, amended. With limit 1 there is never more than one visitor call in flight
  (with limit \<open>n\<close>, never more than \<open>n\<close>). The values a call may return are the same
  for limit 1 and for every higher limit: \<open>nil\<close>, and every error the visitor returns
  for some entry of the tree. Which of them a given call returns depends on the
  schedule.
\<close>

theorem limit_one_serial_same_outcomes:
  assumes "1 \<le> n"
  shows "(\<forall>sched s. run (p\<lparr>limit := 1\<rparr>) sched init = Some s \<longrightarrow> in_flight s \<le> 1) \<and>
         (\<forall>sched s. run (p\<lparr>limit := n\<rparr>) sched init = Some s \<longrightarrow> int (in_flight s) \<le> n) \<and>
         (\<forall>r. may_return (p\<lparr>limit := 1\<rparr>) r \<longleftrightarrow> may_return (p\<lparr>limit := n\<rparr>) r) \<and>
         (\<forall>r. may_return (p\<lparr>limit := n\<rparr>) r \<longleftrightarrow>
            r = None \<or> (\<exists>a\<in>set (entries p). visit p a = r))"
proof -
  have one: "\<forall>sched s. run (p\<lparr>limit := 1\<rparr>) sched init = Some s \<longrightarrow> in_flight s \<le> 1"
  proof (intro allI impI)
    fix sched s
    assume "run (p\<lparr>limit := 1\<rparr>) sched init = Some s"
    from in_flight_bound [OF this] show "in_flight s \<le> 1" by simp
  qed
  have many: "\<forall>sched s. run (p\<lparr>limit := n\<rparr>) sched init = Some s \<longrightarrow> int (in_flight s) \<le> n"
  proof (intro allI impI)
    fix sched s
    assume "run (p\<lparr>limit := n\<rparr>) sched init = Some s"
    from in_flight_bound [OF this] assms show "int (in_flight s) \<le> n" by simp
  qed
  have same: "entries (p\<lparr>limit := k\<rparr>) = entries p" "visit (p\<lparr>limit := k\<rparr>) = visit p" for k
    by (simp_all add: entries_def visit_def fun_eq_iff)
  have at_n: "may_return (p\<lparr>limit := n\<rparr>) r \<longleftrightarrow>
      r = None \<or> (\<exists>a\<in>set (entries p). visit p a = r)" for r
    using may_return_iff [of "p\<lparr>limit := n\<rparr>" r] assms by (simp add: same)
  have at_1: "may_return (p\<lparr>limit := 1\<rparr>) r \<longleftrightarrow>
      r = None \<or> (\<exists>a\<in>set (entries p). visit p a = r)" for r
    using may_return_iff [of "p\<lparr>limit := 1\<rparr>" r] by (simp add: same)
  from one many at_n at_1 show ?thesis by simp
qed

theorem limit_one_serial_same_outcomes_witness:
  "may_return (ex_call (fail_on ''d/a.txt'' (Err ''boom'')) 1) (Some (Err ''boom'')) \<and>
   may_return (ex_call (fail_on ''d/a.txt'' (Err ''boom'')) 2) (Some (Err ''boom'')) \<and>
   in_flight (the (run (ex_call (fail_on ''d/a.txt'' (Err ''boom'')) 1)
      [Act_main, Act_main, Act_main, Act_main, Act_main, Act_worker 0, Act_discover,
       Act_deliver 0] init)) = 1"
proof -
  let ?p = "ex_call (fail_on ''d/a.txt'' (Err ''boom'')) 1"
  let ?q = "ex_call (fail_on ''d/a.txt'' (Err ''boom'')) 2"
  let ?sched = "[Act_main, Act_main, Act_main, Act_main, Act_main, Act_worker 0, Act_discover,
       Act_deliver 0]"
  let ?s = "the (run ?p ?sched init)"
  have q: "?p\<lparr>limit := 2\<rparr> = ?q" and p: "?p\<lparr>limit := 1\<rparr> = ?p"
    by (simp_all add: ex_call_def)
  have s: "run ?p ?sched init = Some ?s"
    by (simp add: ex_defs serial_fail_def step_defs)
  have busy: "in_flight ?s = 1"
    by (simp add: ex_defs serial_fail_def step_defs in_flight_def)
  have "run ?p serial_fail init \<noteq> None"
    and "result (the (run ?p serial_fail init)) = Some (Some (Err ''boom''))"
    by (simp_all add: ex_defs serial_fail_def step_defs)
  then have ret: "may_return ?p (Some (Err ''boom''))"
    unfolding may_return_def by (metis option.exhaust_sel)
  have h: "(1::int) \<le> 2" by simp
  from limit_one_serial_same_outcomes [OF h, of ?p] ret have "may_return ?q (Some (Err ''boom''))"
    by (simp add: p q)
  with ret busy show ?thesis by simp
qed

section \<open>Panics that remain reachable\<close>

text \<open>
  \<open>inv_panic\<close> excludes three panics. The other two that a call with a limit of at least
  one can raise are reachable. A second \<open>close(kill)\<close>: the check of line 95 and the
  \<open>close\<close> of line 96 are two steps, and the monitor can receive an error and close
  \<open>kill\<close> between them. A nil dereference at \<open>file.path\<close>: a worker that comes back to
  its \<open>select\<close> after \<open>files\<close> has been closed may receive the nil pointer from it.
\<close>

lemma close_of_closed_kill_reachable:
  "map_option panicked (run (ex_call (fail_on ''d/b.txt'' (Err ''boom'')) 1) close_twice init) =
     Some (Some (CloseOfClosed Kill))"
  by (simp add: ex_defs close_twice_def step_defs)

lemma nil_dereference_reachable:
  "map_option panicked (run (ex_call (fail_on ''d/a.txt'' (Err ''boom'')) 2) nil_file init) =
     Some (Some NilDeref)"
  by (simp add: ex_defs nil_file_def cancel_done_def cancel_run_def step_defs)

end
